theory Spec2Isabelle
  imports Main "HOL-Library.Sublist"
begin

section \<open>Strings, errors and lazy streams\<close>

text \<open>
  A Python \<open>str\<close> is a sequence of Unicode code points; file names, channel names and
  video ids are modelled as lists of code points. \<open>py\<close> turns an ASCII literal into
  such a list.
\<close>

type_synonym codepoint = nat
type_synonym pystr = "codepoint list"

definition py :: "string \<Rightarrow> pystr" where
  "py s = map of_char s"

text \<open>
  The exceptions that reach the code under study: a failure of the remote service while
  a feed or a search is being read, and a failure of a file-system call.
\<close>

datatype error = RemoteLookupError | OSError

text \<open>
  A generator of the scraping library is a finite sequence of events: \<open>Inr x\<close> is an
  item handed to the loop, \<open>Inl e\<close> is an exception raised when the loop asks for the
  next item. Nothing behind the first \<open>Inl\<close> is ever reached.
\<close>

type_synonym 'a stream = "(error + 'a) list"

section \<open>Archiver.channel\_search\<close>

text \<open>
  \<^verbatim>\<open>
  for index, result in enumerate(YTApi.channel_search(term)):
      if index + 1 == max_results:
          break
      yield result
  \<close>
  The function is itself a generator: the model returns the results it yields, in
  order, and the exception that ended it, if any. \<open>index\<close> is the counter of
  \<open>enumerate\<close>.
\<close>

fun channel_search_loop :: "int \<Rightarrow> 'a stream \<Rightarrow> int \<Rightarrow> 'a list \<times> error option" where
  "channel_search_loop index [] max_results = ([], None)"
| "channel_search_loop index (Inl e # rest) max_results = ([], Some e)"
| "channel_search_loop index (Inr result # rest) max_results =
     (if index + 1 = max_results then ([], None)
      else (case channel_search_loop (index + 1) rest max_results of
              (ys, r) \<Rightarrow> (result # ys, r)))"

definition channel_search :: "'a stream \<Rightarrow> int \<Rightarrow> 'a list \<times> error option" where
  "channel_search results max_results = channel_search_loop 0 results max_results"

text \<open>The call without the second argument, as the command line makes it: \<open>max_results=5\<close>.\<close>

definition channel_search_default :: "'a stream \<Rightarrow> 'a list \<times> error option" where
  "channel_search_default results = channel_search results 5"

section \<open>Archiver.get\_latest\_videos\<close>

text \<open>
  \<^verbatim>\<open>
  video_ids = set()
  videos = scrapetube.get_channel(channel.id)
  for index, video in enumerate(videos):
      video_ids.add(video["videoId"])
      if index + 1 == channel.keep:
          break
  return video_ids
  \<close>
  The stream carries the \<open>videoId\<close> of each record. \<open>keep\<close> is \<open>None\<close> or a Python
  integer; \<open>index + 1 == None\<close> is false.
\<close>

fun get_latest_loop :: "int \<Rightarrow> pystr stream \<Rightarrow> int option \<Rightarrow> pystr set \<Rightarrow> error + pystr set" where
  "get_latest_loop index [] keep video_ids = Inr video_ids"
| "get_latest_loop index (Inl e # rest) keep video_ids = Inl e"
| "get_latest_loop index (Inr video # rest) keep video_ids =
     (if Some (index + 1) = keep then Inr (insert video video_ids)
      else get_latest_loop (index + 1) rest keep (insert video video_ids))"

definition get_latest_videos :: "pystr stream \<Rightarrow> int option \<Rightarrow> error + pystr set" where
  "get_latest_videos videos keep = get_latest_loop 0 videos keep {}"

section \<open>The file-name pattern of the local scan\<close>

text \<open>
  \<^verbatim>\<open>video_pattern = re.compile("\\[([\\w-]+)\\]\\.\\w+$")\<close>

  The pattern is a sequence of atoms: a literal character, a greedy repetition of a
  character class (\<open>+\<close> is one character of the class followed by \<open>*\<close>), the two ends
  of the capturing group, and \<open>$\<close>. The matcher below is the backtracking matcher of
  Python's \<open>re\<close> on such sequences: a repetition takes as many characters as it can
  and gives them back one at a time when the rest of the pattern fails.
\<close>

datatype rx =
    Lit codepoint
  | ClassPlus "codepoint \<Rightarrow> bool"
  | ClassStar "codepoint \<Rightarrow> bool"
  | GroupOpen
  | GroupClose
  | Dollar

text \<open>
  \<open>rx_match rs s start cap\<close> matches the atoms \<open>rs\<close> at the head of \<open>s\<close>. \<open>start\<close> is
  the text that was left when the group opened, \<open>cap\<close> the text of the group once it
  has closed; the result is the group's text on success. Without the MULTILINE flag
  \<open>$\<close> matches at the end of the string and also just before a newline that is the
  last character of the string.
\<close>

fun rx_match :: "rx list \<Rightarrow> pystr \<Rightarrow> pystr \<Rightarrow> pystr \<Rightarrow> pystr option" where
  "rx_match [] s start cap = Some cap"
| "rx_match (Lit c # rs) s start cap =
     (case s of [] \<Rightarrow> None
      | x # t \<Rightarrow> if x = c then rx_match rs t start cap else None)"
| "rx_match (ClassPlus P # rs) s start cap =
     (case s of [] \<Rightarrow> None
      | x # t \<Rightarrow> if P x then rx_match (ClassStar P # rs) t start cap else None)"
| "rx_match (ClassStar P # rs) s start cap =
     (case s of [] \<Rightarrow> rx_match rs [] start cap
      | x # t \<Rightarrow>
          if P x then
            (case rx_match (ClassStar P # rs) t start cap of
               Some r \<Rightarrow> Some r
             | None \<Rightarrow> rx_match rs (x # t) start cap)
          else rx_match rs (x # t) start cap)"
| "rx_match (GroupOpen # rs) s start cap = rx_match rs s s cap"
| "rx_match (GroupClose # rs) s start cap =
     rx_match rs s start (take (length start - length s) start)"
| "rx_match (Dollar # rs) s start cap =
     (if s = [] \<or> s = [10] then rx_match rs s start cap else None)"

text \<open>
  \<open>re.search\<close>: the first position, from the left, at which the pattern matches; the
  empty rest of the string is a position too. The result is \<open>result.group(1)\<close>.
\<close>

fun re_search :: "rx list \<Rightarrow> pystr \<Rightarrow> pystr option" where
  "re_search rs [] = rx_match rs [] [] []"
| "re_search rs (x # t) =
     (case rx_match rs (x # t) [] [] of
        Some r \<Rightarrow> Some r
      | None \<Rightarrow> re_search rs t)"

text \<open>
  \<open>\w\<close> on a \<open>str\<close> pattern is Unicode-aware: a letter, a digit or the underscore in
  ASCII, and beyond ASCII whatever the Unicode database calls alphanumeric. That table
  is not part of the repository: it is the parameter \<open>ua\<close>, asked only about code
  points from 128 on.
\<close>

definition ascii_word :: "codepoint \<Rightarrow> bool" where
  "ascii_word c \<longleftrightarrow>
     (48 \<le> c \<and> c \<le> 57) \<or> (65 \<le> c \<and> c \<le> 90) \<or> (97 \<le> c \<and> c \<le> 122) \<or> c = 95"

definition is_word :: "(codepoint \<Rightarrow> bool) \<Rightarrow> codepoint \<Rightarrow> bool" where
  "is_word ua c = (if c < 128 then ascii_word c else ua c)"

definition word_or_hyphen :: "(codepoint \<Rightarrow> bool) \<Rightarrow> codepoint \<Rightarrow> bool" where
  "word_or_hyphen ua c \<longleftrightarrow> is_word ua c \<or> c = 45"

text \<open>\<open>[\<close> is 91, \<open>]\<close> is 93, \<open>.\<close> is 46, \<open>-\<close> is 45, newline is 10.\<close>

definition video_pattern :: "(codepoint \<Rightarrow> bool) \<Rightarrow> rx list" where
  "video_pattern ua =
     [Lit 91, GroupOpen, ClassPlus (word_or_hyphen ua), GroupClose, Lit 93,
      Lit 46, ClassPlus (is_word ua), Dollar]"

definition video_id :: "(codepoint \<Rightarrow> bool) \<Rightarrow> pystr \<Rightarrow> pystr option" where
  "video_id ua file = re_search (video_pattern ua) file"

text \<open>
  The shape of a file name in the words of the specification: \<open>[\<close>, a non-empty token
  of word characters or hyphens, \<open>]\<close>, a dot, and an extension of one or more word
  characters, after any text \<open>pre\<close>.
\<close>

definition id_token :: "(codepoint \<Rightarrow> bool) \<Rightarrow> pystr \<Rightarrow> bool" where
  "id_token ua tok \<longleftrightarrow> tok \<noteq> [] \<and> list_all (word_or_hyphen ua) tok"

definition extension :: "(codepoint \<Rightarrow> bool) \<Rightarrow> pystr \<Rightarrow> bool" where
  "extension ua ext \<longleftrightarrow> ext \<noteq> [] \<and> list_all (is_word ua) ext"

definition tagged_name :: "pystr \<Rightarrow> pystr \<Rightarrow> pystr \<Rightarrow> pystr" where
  "tagged_name pre tok ext = pre @ [91] @ tok @ [93, 46] @ ext"

section \<open>Channels and the configuration file\<close>

text \<open>
  \<^verbatim>\<open>Channel = namedtuple("Channel", "name id keep", defaults=(None,))\<close>
\<close>

record channel =
  ch_name :: pystr
  ch_id :: pystr
  ch_keep :: "int option"

text \<open>
  The configuration is the dictionary read from the YAML file. Its \<open>"channels"\<close> entry
  is a list of channel records, or is absent (\<open>None\<close> below). A record without a
  \<open>keep\<close> key is read back with \<open>keep = None\<close>, so the stored dictionaries are
  modelled by the channels they denote.
\<close>

record config =
  cfg_channels :: "channel list option"

text \<open>\<^verbatim>\<open>return [self.Channel(**c) for c in self.config.get("channels", [])]\<close>\<close>

definition channels :: "config \<Rightarrow> channel list" where
  "channels cfg = (case cfg_channels cfg of None \<Rightarrow> [] | Some cs \<Rightarrow> cs)"

text \<open>
  \<^verbatim>\<open>
  for channel in self.channels():
      if channel.id == new_channel.id:
          print(f"Channel ID '{channel.id}' already in archive")
          return False
  kwargs = new_channel._asdict()
  if kwargs["keep"] is None:
      del kwargs["keep"]
  self.config.get("channels", []).append(kwargs)
  return True
  \<close>
  \<open>id_already_in\<close> is the loop: true when it reaches \<open>return False\<close>. The last
  statement appends to the list that \<open>get\<close> returns: the stored list when the key is
  there, and a fresh list, dropped at once, when it is not.
\<close>

fun id_already_in :: "channel list \<Rightarrow> channel \<Rightarrow> bool" where
  "id_already_in [] new_channel = False"
| "id_already_in (channel # rest) new_channel =
     (if ch_id channel = ch_id new_channel then True else id_already_in rest new_channel)"

definition config_add_channel :: "config \<Rightarrow> channel \<Rightarrow> bool \<times> config" where
  "config_add_channel cfg new_channel =
     (if id_already_in (channels cfg) new_channel then (False, cfg)
      else (True,
        (case cfg_channels cfg of
           None \<Rightarrow> cfg
         | Some cs \<Rightarrow> cfg\<lparr>cfg_channels := Some (cs @ [new_channel])\<rparr>)))"

text \<open>
  The archiver holds the configuration in memory; \<open>save\<close> writes it over the file.
  \<^verbatim>\<open>
  if self.config.add_channel(channel):
      self.config.save()
      return True
  return False
  \<close>
\<close>

record archiver =
  arch_config :: config
  arch_file :: config

definition save :: "archiver \<Rightarrow> archiver" where
  "save a = a\<lparr>arch_file := arch_config a\<rparr>"

definition archiver_add_channel :: "archiver \<Rightarrow> channel \<Rightarrow> bool \<times> archiver" where
  "archiver_add_channel a channel =
     (case config_add_channel (arch_config a) channel of
        (True, cfg) \<Rightarrow> (True, save (a\<lparr>arch_config := cfg\<rparr>))
      | (False, cfg) \<Rightarrow> (False, a\<lparr>arch_config := cfg\<rparr>))"

text \<open>\<^verbatim>\<open>return 0 if self.archiver.add_channel(channel) else 1\<close>\<close>

definition cli_add :: "archiver \<Rightarrow> channel \<Rightarrow> int \<times> archiver" where
  "cli_add a channel =
     (case archiver_add_channel a channel of (ok, a') \<Rightarrow> (if ok then 0 else 1, a'))"

section \<open>The file system, the collaborators and the state of a run\<close>

text \<open>
  A directory is the list of its entries. Of each entry the code asks its name, whether
  \<open>os.path.isfile\<close> holds, and whether \<open>os.unlink\<close> succeeds on it (it does not on
  a directory, nor where permissions forbid it). A listing has one entry per name.

  The file system maps a name \<open>n\<close> to the directory that the path
  \<open>os.path.join(output_path, n)\<close> names, or to \<open>None\<close> when \<open>os.listdir\<close> fails on
  that path (no such directory, no permission); for a channel, \<open>n\<close> is its name, and
  different names are taken to name different directories. The
  configuration is taken to have a \<open>downloader\<close> section with a command and an
  \<open>output_path\<close>, on a POSIX system (file names compared as they are spelt).
\<close>

record dirent =
  d_name :: pystr
  d_isfile :: bool
  d_unlink_ok :: bool

type_synonym filesystem = "pystr \<Rightarrow> dirent list option"

text \<open>
  The calls the archiver makes to the outside, in order: the downloader command run by
  \<open>subprocess.call\<close> for a channel name and a video id, \<open>glob.glob\<close> on a pattern in
  a channel directory, \<open>os.unlink\<close> on a file of a channel directory.
\<close>

datatype call =
    Download pystr pystr
  | Glob pystr pystr
  | Unlink pystr pystr

record world =
  dirs :: filesystem
  calls :: "call list"

text \<open>
  What the repository does not contain is a parameter of the model:
  \<^item> \<open>unicode_alnum\<close>: the Unicode table behind \<open>\w\<close>, for code points from 128 on;
  \<^item> \<open>output_path\<close>: the \<open>output_path\<close> of the configuration's downloader section;
  \<^item> \<open>glob_other\<close>: the result of \<open>glob.glob\<close> on the paths whose expansion is not
    spelt out below (a wildcard in the directory part, or in the text between the two
    asterisks of the last component);
  \<^item> \<open>feed\<close>: the stream \<open>scrapetube.get_channel(channel.id)\<close> of a channel id;
  \<^item> \<open>download\<close>: what the configured downloader command does to the file system for
    a channel name and a video id;
  \<^item> \<open>order\<close>: the order in which Python iterates over a set, which the language
    leaves open.
\<close>

record env =
  unicode_alnum :: "codepoint \<Rightarrow> bool"
  output_path :: pystr
  glob_other :: "filesystem \<Rightarrow> pystr \<Rightarrow> pystr \<Rightarrow> (pystr \<times> pystr) list"
  feed :: "pystr \<Rightarrow> pystr stream"
  download :: "pystr \<Rightarrow> pystr \<Rightarrow> filesystem \<Rightarrow> filesystem"
  order :: "pystr set \<Rightarrow> pystr list"

text \<open>An iteration over the set \<open>S\<close> visits every element of \<open>S\<close>, each once.\<close>

definition iterates :: "(pystr set \<Rightarrow> pystr list) \<Rightarrow> pystr set \<Rightarrow> bool" where
  "iterates ord S \<longleftrightarrow> set (ord S) = S \<and> distinct (ord S)"

section \<open>Archiver.get\_local\_videos\<close>

text \<open>
  \<^verbatim>\<open>
  video_ids = set()
  channel_path = os.path.join(self.config.output_path(), channel.name)
  try:
      files = os.listdir(channel_path)
  except Exception as e:
      print(f"Error listing path '{channel_path}': {e}")
      return video_ids
  video_pattern = re.compile("\\[([\\w-]+)\\]\\.\\w+$")
  for file in files:
      full_path = os.path.join(channel_path, file)
      if os.path.isfile(full_path):
          result = re.search(video_pattern, file)
          if result:
              video_ids.add(result.group(1))
  return video_ids
  \<close>
\<close>

fun scan_files :: "(codepoint \<Rightarrow> bool) \<Rightarrow> dirent list \<Rightarrow> pystr set \<Rightarrow> pystr set" where
  "scan_files ua [] video_ids = video_ids"
| "scan_files ua (file # files) video_ids =
     scan_files ua files
       (if d_isfile file then
          (case video_id ua (d_name file) of
             Some v \<Rightarrow> insert v video_ids
           | None \<Rightarrow> video_ids)
        else video_ids)"

definition get_local_videos :: "env \<Rightarrow> filesystem \<Rightarrow> channel \<Rightarrow> pystr set" where
  "get_local_videos E fs channel =
     (case fs (ch_name channel) of
        None \<Rightarrow> {}
      | Some files \<Rightarrow> scan_files (unicode_alnum E) files {})"

section \<open>Archiver.download\_videos\<close>

text \<open>
  \<^verbatim>\<open>
  for video in new_videos:
      kwargs = downloader | {"video_id": video, "channel_name": channel.name}
      subprocess.call(downloader["command"].format(**kwargs), shell=True)
  \<close>
  The list is the set \<open>new_videos\<close> in the order of the iteration. The exit status of
  the command is not looked at.
\<close>

fun download_videos :: "env \<Rightarrow> world \<Rightarrow> channel \<Rightarrow> pystr list \<Rightarrow> world" where
  "download_videos E w channel [] = w"
| "download_videos E w channel (video # rest) =
     download_videos E
       (w\<lparr>dirs := download E (ch_name channel) video (dirs w),
          calls := calls w @ [Download (ch_name channel) video]\<rparr>)
       channel rest"

section \<open>Archiver.cleanup\_videos\<close>

text \<open>
  \<open>glob.glob\<close> treats \<open>*\<close> (42), \<open>?\<close> (63) and \<open>[\<close> (91) as wildcards, in every
  component of the path it is given. The path of the purge is
  \<open>os.path.join(output_path, channel.name, pat)\<close>, where neither the output path nor
  the channel's name is escaped.
\<close>

definition hidden :: "pystr \<Rightarrow> bool" where
  "hidden name = (case name of [] \<Rightarrow> False | c # _ \<Rightarrow> c = 46)"

definition glob_magic :: "codepoint \<Rightarrow> bool" where
  "glob_magic c \<longleftrightarrow> c = 42 \<or> c = 63 \<or> c = 91"

definition has_magic :: "pystr \<Rightarrow> bool" where
  "has_magic s = list_ex glob_magic s"

text \<open>
  The directory part \<open>os.path.join(output_path, name)\<close> is taken as it is spelt when it
  has no wildcard; it is then the directory that the local scan lists, unless the path
  is empty (\<open>os.listdir\<close> fails on the empty path, \<open>glob.glob\<close> reads the current
  directory).
\<close>

definition literal_path :: "env \<Rightarrow> pystr \<Rightarrow> bool" where
  "literal_path E name \<longleftrightarrow>
     \<not> has_magic (output_path E) \<and> \<not> has_magic name \<and> (output_path E \<noteq> [] \<or> name \<noteq> [])"

text \<open>
  The last component is \<open>*text*\<close>, with no wildcard and no path separator (\<open>/\<close>, 47)
  in \<open>text\<close>: \<open>fnmatch\<close> then accepts the names that contain \<open>text\<close>.
\<close>

definition star_text :: "pystr \<Rightarrow> bool" where
  "star_text pat \<longleftrightarrow>
     2 \<le> length pat \<and> hd pat = 42 \<and> last pat = 42
     \<and> \<not> list_ex (\<lambda>c. glob_magic c \<or> c = 47) (butlast (tl pat))"

text \<open>
  \<open>glob.glob(os.path.join(output_path, name, pat))\<close>. A path it returns is given by
  the name under which the file system knows its directory and by the file's name.
  For a directory part without wildcard and a last component \<open>*text*\<close>, the result is
  the entries of that directory whose names contain \<open>text\<close>, without the names that
  begin with a dot (the pattern does not begin with one), and nothing when the
  directory cannot be listed. Every other case is left to \<open>glob_other\<close>: with a
  wildcard in the channel's name the purge looks into the directories that match the
  name as a pattern, which need not include the channel's own.
\<close>

definition glob :: "env \<Rightarrow> filesystem \<Rightarrow> pystr \<Rightarrow> pystr \<Rightarrow> (pystr \<times> pystr) list" where
  "glob E fs name pat =
     (if literal_path E name \<and> star_text pat
      then map (Pair name)
             (filter (\<lambda>n. \<not> hidden n \<and> sublist (butlast (tl pat)) n)
                (case fs name of None \<Rightarrow> [] | Some files \<Rightarrow> map d_name files))
      else glob_other E fs name pat)"

text \<open>\<open>os.unlink\<close> removes the entry of that name, or raises.\<close>

definition os_unlink :: "filesystem \<Rightarrow> pystr \<Rightarrow> pystr \<Rightarrow> error + filesystem" where
  "os_unlink fs dir name =
     (case fs dir of
        None \<Rightarrow> Inl OSError
      | Some files \<Rightarrow>
          if list_ex (\<lambda>f. d_name f = name \<and> d_unlink_ok f) files
          then Inr (fs(dir \<mapsto> filter (\<lambda>f. \<not> (d_name f = name \<and> d_unlink_ok f)) files))
          else Inl OSError)"

text \<open>
  \<^verbatim>\<open>
  for pattern in patterns:
      match_path = os.path.join(output_path, channel.name, f"*{pattern}*")
      for file_path in glob.glob(match_path):
          try:
              os.unlink(file_path)
              print(f"Deleted: {file_path}")
          except Exception as e:
              print(f"Error deleting {file_path}: {e}")
  \<close>
  \<open>unlink_each\<close> is the inner loop over the result of \<open>glob.glob\<close>, which is computed
  before the first deletion; \<open>cleanup_videos\<close> is the outer loop, over the set
  \<open>patterns\<close> in the order of the iteration.
\<close>

definition purge_pattern :: "pystr \<Rightarrow> pystr" where
  "purge_pattern pattern = 42 # pattern @ [42]"

fun unlink_each :: "world \<Rightarrow> (pystr \<times> pystr) list \<Rightarrow> world" where
  "unlink_each w [] = w"
| "unlink_each w ((dir, file_name) # rest) =
     unlink_each
       (case os_unlink (dirs w) dir file_name of
          Inr fs \<Rightarrow> w\<lparr>dirs := fs, calls := calls w @ [Unlink dir file_name]\<rparr>
        | Inl e \<Rightarrow> w\<lparr>calls := calls w @ [Unlink dir file_name]\<rparr>)
       rest"

fun cleanup_videos :: "env \<Rightarrow> world \<Rightarrow> channel \<Rightarrow> pystr list \<Rightarrow> world" where
  "cleanup_videos E w channel [] = w"
| "cleanup_videos E w channel (pattern # rest) =
     cleanup_videos E
       (unlink_each
          (w\<lparr>calls := calls w @ [Glob (ch_name channel) (purge_pattern pattern)]\<rparr>)
          (glob E (dirs w) (ch_name channel) (purge_pattern pattern)))
       channel rest"

section \<open>Archiver.sync\_channel and the loop over the channels\<close>

text \<open>
  \<^verbatim>\<open>
  local_videos = self.get_local_videos(channel)
  latest_videos = self.get_latest_videos(channel)
  new_videos = latest_videos.difference(local_videos)
  self.download_videos(channel, new_videos)
  old_videos = local_videos.difference(latest_videos)
  self.cleanup_videos(channel, old_videos)
  \<close>
  An exception of the feed leaves \<open>get_latest_videos\<close> and \<open>sync_channel\<close>: nothing
  catches it. Nothing has touched the file system by then.
\<close>

definition sync_channel :: "env \<Rightarrow> world \<Rightarrow> channel \<Rightarrow> error + world" where
  "sync_channel E w channel =
     (let local_videos = get_local_videos E (dirs w) channel in
      case get_latest_videos (feed E (ch_id channel)) (ch_keep channel) of
        Inl e \<Rightarrow> Inl e
      | Inr latest_videos \<Rightarrow>
          (let new_videos = latest_videos - local_videos;
               w1 = download_videos E w channel (order E new_videos);
               old_videos = local_videos - latest_videos
           in Inr (cleanup_videos E w1 channel (order E old_videos))))"

text \<open>
  \<^verbatim>\<open>
  for channel in self.config.channels():
      self.sync_channel(channel)
  \<close>
  in \<open>Archiver.sync\<close>, and the same loop in \<open>ArchiverCLI.sync\<close>, which prints the
  channel's name before each call and returns 0 after the loop. The result is the
  exception that ended the loop, if any, and the state the run has reached.
\<close>

fun sync_loop :: "env \<Rightarrow> world \<Rightarrow> channel list \<Rightarrow> error option \<times> world" where
  "sync_loop E w [] = (None, w)"
| "sync_loop E w (channel # rest) =
     (case sync_channel E w channel of
        Inl e \<Rightarrow> (Some e, w)
      | Inr w' \<Rightarrow> sync_loop E w' rest)"

definition sync :: "env \<Rightarrow> world \<Rightarrow> config \<Rightarrow> error option \<times> world" where
  "sync E w cfg = sync_loop E w (channels cfg)"

definition cli_sync :: "env \<Rightarrow> world \<Rightarrow> config \<Rightarrow> (error + int) \<times> world" where
  "cli_sync E w cfg =
     (case sync_loop E w (channels cfg) of
        (None, w') \<Rightarrow> (Inr 0, w')
      | (Some e, w') \<Rightarrow> (Inl e, w'))"

text \<open>The ids passed to the downloader, and the patterns passed to \<open>glob.glob\<close>, by a list of calls.\<close>

fun downloads_of :: "call list \<Rightarrow> pystr list" where
  "downloads_of [] = []"
| "downloads_of (Download n v # cs) = v # downloads_of cs"
| "downloads_of (c # cs) = downloads_of cs"

fun globs_of :: "call list \<Rightarrow> pystr list" where
  "globs_of [] = []"
| "globs_of (Glob n p # cs) = p # globs_of cs"
| "globs_of (c # cs) = globs_of cs"

section \<open>A small archive to run the model on\<close>

text \<open>
  A downloader that stores the video \<open>v\<close> of a channel as \<open>video [v].mp4\<close> in the
  channel's directory, creating the directory when it is missing; two channels, the
  feed of the first one newest first, the feed of the second one out of reach; and an
  iteration order over the ids in play.
\<close>

definition mp4 :: "pystr \<Rightarrow> dirent" where
  "mp4 v = \<lparr>d_name = py ''video ['' @ v @ py ''].mp4'', d_isfile = True, d_unlink_ok = True\<rparr>"

definition demo_download :: "pystr \<Rightarrow> pystr \<Rightarrow> filesystem \<Rightarrow> filesystem" where
  "demo_download name v fs =
     fs(name \<mapsto> (case fs name of None \<Rightarrow> [] | Some files \<Rightarrow> files) @ [mp4 v])"

definition demo_feed :: "pystr \<Rightarrow> pystr stream" where
  "demo_feed cid =
     (if cid = py ''UC-good'' then [Inr (py ''v3''), Inr (py ''v2''), Inr (py ''v1'')]
      else [Inl RemoteLookupError])"

definition demo_order :: "pystr set \<Rightarrow> pystr list" where
  "demo_order S = filter (\<lambda>v. v \<in> S) [py ''v1'', py ''v2'', py ''v3'', py ''abc'']"

definition demo_env :: env where
  "demo_env =
     \<lparr>unicode_alnum = (\<lambda>c. False), output_path = py ''/videos'',
      glob_other = (\<lambda>fs name pat. []),
      feed = demo_feed, download = demo_download, order = demo_order\<rparr>"

definition good_channel :: channel where
  "good_channel = \<lparr>ch_name = py ''good'', ch_id = py ''UC-good'', ch_keep = Some 2\<rparr>"

definition bad_channel :: channel where
  "bad_channel = \<lparr>ch_name = py ''bad'', ch_id = py ''UC-bad'', ch_keep = None\<rparr>"

text \<open>The directory of the first channel holds the videos \<open>v1\<close> and \<open>v2\<close>; the second has none.\<close>

definition demo_world :: world where
  "demo_world =
     \<lparr>dirs = (\<lambda>name. if name = py ''good'' then Some [mp4 (py ''v1''), mp4 (py ''v2'')] else None),
      calls = []\<rparr>"

text \<open>
  A directory for the purge: two files tagged with the id \<open>abc\<close>, a thumbnail named
  after it, a hidden thumbnail, and a file of another video.
\<close>

definition regular_file :: "string \<Rightarrow> dirent" where
  "regular_file name = \<lparr>d_name = py name, d_isfile = True, d_unlink_ok = True\<rparr>"

definition purge_world :: world where
  "purge_world =
     \<lparr>dirs = (\<lambda>name. if name = py ''good'' then
          Some [regular_file ''Title [abc].mp4'', regular_file ''abc_thumbnail.jpg'',
                regular_file ''copy [abc].mkv'', regular_file ''.abc_thumbnail.jpg'',
                regular_file ''other [xyz].mp4'']
        else None),
      calls = []\<rparr>"

section \<open>Properties of the two bounded loops\<close>

lemma channel_search_loop_length:
  "index < max_results \<Longrightarrow>
   length (fst (channel_search_loop index results max_results)) \<le> nat (max_results - index - 1)"
proof (induction results arbitrary: index)
  case Nil
  then show ?case by simp
next
  case (Cons x results)
  show ?case
  proof (cases x)
    case (Inl e)
    then show ?thesis by simp
  next
    case (Inr r)
    show ?thesis
    proof (cases "index + 1 = max_results")
      case True
      with Inr show ?thesis by simp
    next
      case False
      with Cons.prems have lt: "index + 1 < max_results" by simp
      from Cons.IH [OF lt]
      have "length (fst (channel_search_loop (index + 1) results max_results))
              \<le> nat (max_results - (index + 1) - 1)" .
      with Inr False lt show ?thesis
        by (auto split: prod.splits)
    qed
  qed
qed

lemma channel_search_loop_clean:
  "index < max_results \<Longrightarrow>
   channel_search_loop index (map Inr rs) max_results
     = (take (nat (max_results - index - 1)) rs, None)"
proof (induction rs arbitrary: index)
  case Nil
  then show ?case by simp
next
  case (Cons r rs)
  show ?case
  proof (cases "index + 1 = max_results")
    case True
    then show ?thesis by simp
  next
    case False
    with Cons.prems have lt: "index + 1 < max_results" by simp
    then have "nat (max_results - index - 1) = Suc (nat (max_results - (index + 1) - 1))"
      by simp
    with Cons.IH [OF lt] False show ?thesis by simp
  qed
qed

text \<open>
  Claim C10. For every stream of search results and every positive \<open>max_results\<close> n,
  \<open>channel_search\<close> yields at most n - 1 results, and at most 4 with the default
  \<open>max_results\<close> of 5: the loop breaks, before yielding, as soon as the index of the
  result in hand plus one equals n. On a stream that raises nothing the results are the
  first n - 1 of the stream.
\<close>

theorem channel_search_at_most_pred:
  "(0 < n \<longrightarrow> length (fst (channel_search results n)) \<le> nat (n - 1))
   \<and> length (fst (channel_search_default results)) \<le> 4
   \<and> (0 < n \<longrightarrow> channel_search (map Inr rs) n = (take (nat (n - 1)) rs, None))"
proof -
  have a: "0 < n \<longrightarrow> length (fst (channel_search results n)) \<le> nat (n - 1)"
    using channel_search_loop_length [of 0 n results]
    by (simp add: channel_search_def)
  have b: "length (fst (channel_search_default results)) \<le> 4"
    using channel_search_loop_length [of 0 5 results]
    by (simp add: channel_search_default_def channel_search_def)
  have c: "0 < n \<longrightarrow> channel_search (map Inr rs) n = (take (nat (n - 1)) rs, None)"
    using channel_search_loop_clean [of 0 n rs]
    by (simp add: channel_search_def)
  from a b c show ?thesis by blast
qed

theorem channel_search_at_most_pred_witness:
  "(0::int) < 3
   \<and> channel_search (map Inr [1::nat, 2, 3, 4]) 3 = ([1, 2], None)
   \<and> length (fst (channel_search (map Inr [1::nat, 2, 3, 4]) 3)) \<le> nat (3 - 1)"
  using channel_search_at_most_pred [of 3 "map Inr [1::nat, 2, 3, 4]" "[1::nat, 2, 3, 4]"]
  by simp

section \<open>The window of the remote feed\<close>

lemma get_latest_loop_clean:
  "get_latest_loop i (map Inr ids) keep acc =
     Inr (acc \<union> set (case keep of None \<Rightarrow> ids
                       | Some k \<Rightarrow> if i < k then take (nat (k - i)) ids else ids))"
proof (induction ids arbitrary: i acc)
  case Nil
  then show ?case by (simp split: option.splits)
next
  case (Cons v ids)
  show ?case
  proof (cases keep)
    case None
    then show ?thesis using Cons.IH [of "i + 1" "insert v acc"] by simp
  next
    case (Some k)
    show ?thesis
    proof (cases "i + 1 = k")
      case True
      then have "nat (k - i) = Suc 0" by simp
      with True Some show ?thesis by simp
    next
      case False
      show ?thesis
      proof (cases "i < k")
        case True
        with False have "nat (k - i) = Suc (nat (k - (i + 1)))" by simp
        with True False Some Cons.IH [of "i + 1" "insert v acc"] show ?thesis by simp
      next
        case nlt: False
        with False Some Cons.IH [of "i + 1" "insert v acc"] show ?thesis by simp
      qed
    qed
  qed
qed

lemma get_latest_loop_stop:
  "i < k \<Longrightarrow> length ids = nat (k - i) \<Longrightarrow>
   get_latest_loop i (map Inr ids @ rest) (Some k) acc = Inr (acc \<union> set ids)"
proof (induction ids arbitrary: i acc)
  case Nil
  then show ?case by simp
next
  case (Cons v ids)
  show ?case
  proof (cases "i + 1 = k")
    case True
    then have "nat (k - i) = Suc 0" by simp
    with Cons.prems have "ids = []" by simp
    with True show ?thesis by simp
  next
    case False
    with Cons.prems have lt: "i + 1 < k" and len: "length ids = nat (k - (i + 1))" by auto
    from Cons.IH [OF lt len, of "insert v acc"] False show ?thesis by simp
  qed
qed

lemma get_latest_loop_card:
  "finite acc \<Longrightarrow> i < k \<Longrightarrow> get_latest_loop i videos (Some k) acc = Inr S \<Longrightarrow>
   finite S \<and> card S \<le> card acc + nat (k - i)"
proof (induction videos arbitrary: i acc)
  case Nil
  then show ?case by simp
next
  case (Cons x videos)
  show ?case
  proof (cases x)
    case (Inl e)
    with Cons.prems show ?thesis by simp
  next
    case (Inr v)
    have ins: "card (insert v acc) \<le> card acc + 1"
      using Cons.prems(1) by (simp add: card_insert_if)
    show ?thesis
    proof (cases "i + 1 = k")
      case True
      with Inr Cons.prems have "S = insert v acc" by simp
      with ins Cons.prems(1,2) show ?thesis by simp
    next
      case False
      with Cons.prems(2) have lt: "i + 1 < k" by simp
      from False Inr Cons.prems(3)
      have "get_latest_loop (i + 1) videos (Some k) (insert v acc) = Inr S" by simp
      from Cons.IH [OF _ lt this] Cons.prems(1)
      have "finite S" and "card S \<le> card (insert v acc) + nat (k - (i + 1))" by simp_all
      moreover from lt have "nat (k - i) = nat (k - (i + 1)) + 1" by simp
      ultimately show ?thesis using ins by simp
    qed
  qed
qed

text \<open>
  Claim C4. \<open>get_latest_videos\<close> collects the ids of the stream, in order, into a
  set. On a stream that ends without an exception the result is the set of the first
  \<open>keep\<close> ids when \<open>keep\<close> is a positive integer, and of all the ids when \<open>keep\<close>
  is \<open>None\<close>. It stops once \<open>keep\<close> items are collected: whatever follows them in
  the stream is not read. For a positive \<open>keep\<close> the set returned, on any stream, has
  at most \<open>keep\<close> ids.
\<close>

theorem get_latest_videos_window:
  "get_latest_videos (map Inr ids) keep =
     Inr (set (case keep of None \<Rightarrow> ids
               | Some k \<Rightarrow> if 0 < k then take (nat k) ids else ids))
   \<and> (0 < k \<and> length ids = nat k \<longrightarrow>
        get_latest_videos (map Inr ids @ rest) (Some k) = Inr (set ids))
   \<and> (0 < k \<and> get_latest_videos videos (Some k) = Inr S \<longrightarrow> card S \<le> nat k)"
proof -
  have a: "get_latest_videos (map Inr ids) keep =
     Inr (set (case keep of None \<Rightarrow> ids
               | Some k \<Rightarrow> if 0 < k then take (nat k) ids else ids))"
    by (simp add: get_latest_videos_def get_latest_loop_clean split: option.splits)
  have b: "0 < k \<and> length ids = nat k \<longrightarrow>
        get_latest_videos (map Inr ids @ rest) (Some k) = Inr (set ids)"
    using get_latest_loop_stop [of 0 k ids rest "{}"]
    by (simp add: get_latest_videos_def)
  have c: "0 < k \<and> get_latest_videos videos (Some k) = Inr S \<longrightarrow> card S \<le> nat k"
    using get_latest_loop_card [of "{}" 0 k videos S]
    by (simp add: get_latest_videos_def)
  from a b c show ?thesis by blast
qed

theorem get_latest_videos_window_witness:
  "(0::int) < 2 \<and> length [py ''v3'', py ''v2''] = nat 2
   \<and> get_latest_videos (map Inr [py ''v3'', py ''v2''] @ [Inr (py ''v1''), Inl RemoteLookupError]) (Some 2)
       = Inr {py ''v3'', py ''v2''}
   \<and> card {py ''v3'', py ''v2''} \<le> nat 2
   \<and> get_latest_videos (map Inr [py ''v3'', py ''v2'', py ''v1'']) None
       = Inr {py ''v3'', py ''v2'', py ''v1''}"
proof -
  let ?ids = "[py ''v3'', py ''v2'']"
  let ?rest = "[Inr (py ''v1''), Inl RemoteLookupError]"
  have l: "(0::int) < 2 \<and> length ?ids = nat 2" by simp
  from get_latest_videos_window [of ?ids "Some 2" 2 ?rest "map Inr ?ids @ ?rest" "set ?ids"] l
  have s: "get_latest_videos (map Inr ?ids @ ?rest) (Some 2) = Inr (set ?ids)"
    and c: "card (set ?ids) \<le> nat 2"
    by blast+
  from get_latest_videos_window [of "[py ''v3'', py ''v2'', py ''v1'']" None 2 "[]"]
  have n: "get_latest_videos (map Inr [py ''v3'', py ''v2'', py ''v1'']) None
       = Inr (set [py ''v3'', py ''v2'', py ''v1''])"
    by simp
  from l s c n show ?thesis by (simp add: insert_commute)
qed

section \<open>What the file-name pattern accepts\<close>

lemma not_word_special:
  "\<not> is_word ua 91" "\<not> is_word ua 93" "\<not> is_word ua 46" "\<not> is_word ua 10"
  "\<not> is_word ua 42" "\<not> is_word ua 63" "\<not> is_word ua 45"
  by (simp_all add: is_word_def ascii_word_def)

lemma not_word_or_hyphen_special:
  "\<not> word_or_hyphen ua 91" "\<not> word_or_hyphen ua 93" "\<not> word_or_hyphen ua 46"
  "\<not> word_or_hyphen ua 10" "\<not> word_or_hyphen ua 42" "\<not> word_or_hyphen ua 63"
  by (simp_all add: word_or_hyphen_def not_word_special)

text \<open>
  A greedy repetition never gives anything back when what follows it in the pattern
  cannot begin with a character of the class.
\<close>

lemma rx_match_star_skip:
  assumes rej: "\<And>x t st cp. P x \<Longrightarrow> rx_match rs (x # t) st cp = None"
  shows "rx_match (ClassStar P # rs) s start cap = rx_match rs (dropWhile P s) start cap"
proof (induction s)
  case Nil
  show ?case by simp
next
  case (Cons x t)
  show ?case
  proof (cases "P x")
    case True
    with Cons rej [of x t start cap] show ?thesis
      by (simp split: option.splits)
  next
    case False
    then show ?thesis by simp
  qed
qed

lemma take_takeWhile_length:
  "take (length xs - length (dropWhile P xs)) xs = takeWhile P xs"
proof -
  have "length xs = length (takeWhile P xs) + length (dropWhile P xs)"
    by (metis length_append takeWhile_dropWhile_id)
  then have "length xs - length (dropWhile P xs) = length (takeWhile P xs)" by simp
  then show ?thesis
    by (metis append_eq_conv_conj takeWhile_dropWhile_id)
qed

text \<open>The tail of the pattern, from the closing bracket on.\<close>

lemma rx_match_tail:
  "rx_match [Lit 93, Lit 46, ClassPlus (is_word ua), Dollar] s start cap =
     (if \<exists>z u. s = 93 # 46 # z # u \<and> is_word ua z
            \<and> (dropWhile (is_word ua) u = [] \<or> dropWhile (is_word ua) u = [10])
      then Some cap else None)"
proof -
  have rej: "\<And>x t st cp. is_word ua x \<Longrightarrow> rx_match [Dollar] (x # t) st cp = None"
    using not_word_special(4) by auto
  have star: "\<And>u. rx_match [ClassStar (is_word ua), Dollar] u start cap =
      (if dropWhile (is_word ua) u = [] \<or> dropWhile (is_word ua) u = [10] then Some cap else None)"
    by (simp add: rx_match_star_skip [OF rej] del: rx_match.simps(4))
  show ?thesis
    by (auto simp: star simp del: rx_match.simps(4) split: list.splits)
qed

lemma rx_match_video_pattern:
  "rx_match (video_pattern ua) s start cap =
     (if \<exists>y r z u. s = 91 # y # r \<and> word_or_hyphen ua y
            \<and> dropWhile (word_or_hyphen ua) r = 93 # 46 # z # u \<and> is_word ua z
            \<and> (dropWhile (is_word ua) u = [] \<or> dropWhile (is_word ua) u = [10])
      then Some (takeWhile (word_or_hyphen ua) (tl s)) else None)"
proof -
  let ?tail = "[Lit 93, Lit 46, ClassPlus (is_word ua), Dollar]"
  have rej: "\<And>x t st cp. word_or_hyphen ua x \<Longrightarrow> rx_match (GroupClose # ?tail) (x # t) st cp = None"
    using not_word_or_hyphen_special(2) by auto
  have star: "\<And>r st. rx_match (ClassStar (word_or_hyphen ua) # GroupClose # ?tail) r st cap =
      rx_match ?tail (dropWhile (word_or_hyphen ua) r) st
        (take (length st - length (dropWhile (word_or_hyphen ua) r)) st)"
    by (simp add: rx_match_star_skip [OF rej] del: rx_match.simps(2,3,4))
  show ?thesis
  proof (cases s)
    case Nil
    then show ?thesis by (simp add: video_pattern_def)
  next
    case (Cons x r0)
    show ?thesis
    proof (cases r0)
      case Nil
      with Cons show ?thesis by (simp add: video_pattern_def)
    next
      case (Cons y r)
      have step: "rx_match (video_pattern ua) (x # y # r) start cap =
          (if x = 91 \<and> word_or_hyphen ua y
           then rx_match ?tail (dropWhile (word_or_hyphen ua) r) (y # r)
                  (y # takeWhile (word_or_hyphen ua) r)
           else None)"
      proof (cases "x = 91 \<and> word_or_hyphen ua y")
        case True
        then have "x = 91" and wh: "word_or_hyphen ua y" by simp_all
        have cap: "take (length (y # r) - length (dropWhile (word_or_hyphen ua) r)) (y # r)
                  = y # takeWhile (word_or_hyphen ua) r"
          using take_takeWhile_length [of "y # r" "word_or_hyphen ua"] wh by simp
        have "rx_match (video_pattern ua) (x # y # r) start cap =
               rx_match (ClassStar (word_or_hyphen ua) # GroupClose # ?tail) r (y # r) cap"
          unfolding video_pattern_def using True by simp
        also have "\<dots> = rx_match ?tail (dropWhile (word_or_hyphen ua) r) (y # r)
                  (y # takeWhile (word_or_hyphen ua) r)"
          by (simp only: star cap)
        finally show ?thesis using True by simp
      next
        case False
        then show ?thesis unfolding video_pattern_def by auto
      qed
      from Cons \<open>s = x # r0\<close> show ?thesis
        by (simp only: step rx_match_tail) auto
    qed
  qed
qed


lemma rx_match_video_pattern_iff:
  "rx_match (video_pattern ua) s start cap = Some tok \<longleftrightarrow>
     (\<exists>ext nl. id_token ua tok \<and> extension ua ext \<and> (nl = [] \<or> nl = [10])
        \<and> s = tagged_name [] tok ext @ nl)"
proof
  assume "rx_match (video_pattern ua) s start cap = Some tok"
  then obtain y r z u where s: "s = 91 # y # r" and y: "word_or_hyphen ua y"
    and r: "dropWhile (word_or_hyphen ua) r = 93 # 46 # z # u" and z: "is_word ua z"
    and u: "dropWhile (is_word ua) u = [] \<or> dropWhile (is_word ua) u = [10]"
    and tok: "tok = takeWhile (word_or_hyphen ua) (tl s)"
    unfolding rx_match_video_pattern by (auto split: if_splits)
  let ?ext = "z # takeWhile (is_word ua) u"
  let ?nl = "dropWhile (is_word ua) u"
  from s y tok have tok': "tok = y # takeWhile (word_or_hyphen ua) r" by simp
  have "id_token ua tok"
    using tok' y by (auto simp: id_token_def list_all_iff dest: set_takeWhileD)
  moreover have "extension ua ?ext"
    using z by (auto simp: extension_def list_all_iff dest: set_takeWhileD)
  moreover have "s = tagged_name [] tok ?ext @ ?nl"
  proof -
    have "r = takeWhile (word_or_hyphen ua) r @ dropWhile (word_or_hyphen ua) r" by simp
    moreover have "u = takeWhile (is_word ua) u @ ?nl" by simp
    ultimately have "r = takeWhile (word_or_hyphen ua) r @ 93 # 46 # z # takeWhile (is_word ua) u @ ?nl"
      using r by simp
    then show ?thesis using s tok' by (simp add: tagged_name_def)
  qed
  ultimately show "\<exists>ext nl. id_token ua tok \<and> extension ua ext \<and> (nl = [] \<or> nl = [10])
        \<and> s = tagged_name [] tok ext @ nl"
    using u by blast
next
  assume "\<exists>ext nl. id_token ua tok \<and> extension ua ext \<and> (nl = [] \<or> nl = [10])
        \<and> s = tagged_name [] tok ext @ nl"
  then obtain ext nl where t: "id_token ua tok" and e: "extension ua ext"
    and nl: "nl = [] \<or> nl = [10]" and s: "s = tagged_name [] tok ext @ nl"
    by blast
  from t obtain y r where tok: "tok = y # r" and y: "word_or_hyphen ua y"
    and rall: "\<And>c. c \<in> set r \<Longrightarrow> word_or_hyphen ua c"
    by (cases tok) (auto simp: id_token_def list_all_iff)
  from e obtain z u where ext: "ext = z # u" and z: "is_word ua z"
    and uall: "\<And>c. c \<in> set u \<Longrightarrow> is_word ua c"
    by (cases ext) (auto simp: extension_def list_all_iff)
  have s': "s = 91 # y # (r @ 93 # 46 # z # u @ nl)"
    using s tok ext by (simp add: tagged_name_def)
  have d1: "dropWhile (word_or_hyphen ua) (r @ 93 # 46 # z # u @ nl) = 93 # 46 # z # u @ nl"
    using rall not_word_or_hyphen_special(2) [of ua] by (simp add: dropWhile_append2)
  have t1: "takeWhile (word_or_hyphen ua) (r @ 93 # 46 # z # u @ nl) = r"
    using rall not_word_or_hyphen_special(2) [of ua] by (simp add: takeWhile_append2)
  have d2: "dropWhile (is_word ua) (u @ nl) = nl"
    using uall nl not_word_special(4) [of ua] by (auto simp: dropWhile_append2)
  show "rx_match (video_pattern ua) s start cap = Some tok"
    unfolding rx_match_video_pattern s'
    using y z nl d1 t1 d2 tok by auto
qed

text \<open>No match begins inside the text before the last bracket group.\<close>

lemma rx_match_not_earlier:
  assumes t: "id_token ua tok" and e: "extension ua ext" and nl: "nl = [] \<or> nl = [10]"
  shows "rx_match (video_pattern ua) (x # pre @ tagged_name [] tok ext @ nl) start cap = None"
proof (rule ccontr)
  assume "rx_match (video_pattern ua) (x # pre @ tagged_name [] tok ext @ nl) start cap \<noteq> None"
  then obtain tok' where "rx_match (video_pattern ua) (x # pre @ tagged_name [] tok ext @ nl) start cap = Some tok'"
    by blast
  then obtain ext' nl' where t': "id_token ua tok'" and e': "extension ua ext'"
    and nl': "nl' = [] \<or> nl' = [10]"
    and eq: "x # pre @ tagged_name [] tok ext @ nl = tagged_name [] tok' ext' @ nl'"
    unfolding rx_match_video_pattern_iff by blast
  from eq have eq': "pre @ 91 # tok @ 93 # 46 # ext @ nl = tok' @ 93 # 46 # ext' @ nl'"
    by (simp add: tagged_name_def)
  have tok'_all: "\<And>c. c \<in> set tok' \<Longrightarrow> word_or_hyphen ua c"
    using t' by (simp add: id_token_def list_all_iff)
  have ext'_all: "\<And>c. c \<in> set ext' \<Longrightarrow> is_word ua c"
    using e' by (simp add: extension_def list_all_iff)
  from eq' obtain us where
    "(pre = tok' @ us \<and> us @ 91 # tok @ 93 # 46 # ext @ nl = 93 # 46 # ext' @ nl')
     \<or> (pre @ us = tok' \<and> 91 # tok @ 93 # 46 # ext @ nl = us @ 93 # 46 # ext' @ nl')"
    by (auto simp: append_eq_append_conv2)
  then show False
  proof
    assume a: "pre = tok' @ us \<and> us @ 91 # tok @ 93 # 46 # ext @ nl = 93 # 46 # ext' @ nl'"
    then have "91 \<in> set (93 # 46 # ext' @ nl')"
      by (metis in_set_conv_decomp)
    then have "91 \<in> set ext' \<or> 91 \<in> set nl'" by auto
    with ext'_all nl' not_word_special(1) [of ua] show False by auto
  next
    assume b: "pre @ us = tok' \<and> 91 # tok @ 93 # 46 # ext @ nl = us @ 93 # 46 # ext' @ nl'"
    show False
    proof (cases us)
      case Nil
      with b show False by simp
    next
      case (Cons c us')
      with b have "c = 91" by simp
      with Cons b have "91 \<in> set tok'" by auto
      with tok'_all not_word_or_hyphen_special(1) [of ua] show False by auto
    qed
  qed
qed

lemma re_search_finds:
  assumes t: "id_token ua tok" and e: "extension ua ext" and nl: "nl = [] \<or> nl = [10]"
  shows "re_search (video_pattern ua) (pre @ tagged_name [] tok ext @ nl) = Some tok"
proof (induction pre)
  case Nil
  have m: "rx_match (video_pattern ua) (tagged_name [] tok ext @ nl) [] [] = Some tok"
    unfolding rx_match_video_pattern_iff using t e nl by blast
  have "tagged_name [] tok ext @ nl \<noteq> []" by (simp add: tagged_name_def)
  then obtain c cs where "tagged_name [] tok ext @ nl = c # cs"
    by (cases "tagged_name [] tok ext @ nl") auto
  with m show ?case by simp
next
  case (Cons x pre)
  from rx_match_not_earlier [OF t e nl, of x pre "[]" "[]"] Cons show ?case by simp
qed

lemma re_search_shape:
  "re_search (video_pattern ua) f = Some tok \<Longrightarrow>
   \<exists>pre ext nl. id_token ua tok \<and> extension ua ext \<and> (nl = [] \<or> nl = [10])
      \<and> f = pre @ tagged_name [] tok ext @ nl"
proof (induction f)
  case Nil
  then have "rx_match (video_pattern ua) [] [] [] = Some tok" by simp
  then show ?case unfolding rx_match_video_pattern_iff by (simp add: tagged_name_def)
next
  case (Cons x t)
  show ?case
  proof (cases "rx_match (video_pattern ua) (x # t) [] []")
    case None
    with Cons.prems have "re_search (video_pattern ua) t = Some tok" by simp
    from Cons.IH [OF this] obtain pre ext nl where
      "id_token ua tok \<and> extension ua ext \<and> (nl = [] \<or> nl = [10])
        \<and> t = pre @ tagged_name [] tok ext @ nl" by blast
    then have "id_token ua tok \<and> extension ua ext \<and> (nl = [] \<or> nl = [10])
        \<and> x # t = (x # pre) @ tagged_name [] tok ext @ nl" by simp
    then show ?thesis by blast
  next
    case (Some r)
    with Cons.prems have "r = tok" by simp
    with Some have "rx_match (video_pattern ua) (x # t) [] [] = Some tok" by simp
    then obtain ext nl where "id_token ua tok \<and> extension ua ext \<and> (nl = [] \<or> nl = [10])
        \<and> x # t = [] @ tagged_name [] tok ext @ nl"
      unfolding rx_match_video_pattern_iff by auto
    then show ?thesis by blast
  qed
qed

lemma tagged_name_pre: "pre @ tagged_name [] tok ext = tagged_name pre tok ext"
  by (simp add: tagged_name_def)

lemma video_id_iff:
  "video_id ua f = Some tok \<longleftrightarrow>
     (\<exists>pre ext nl. id_token ua tok \<and> extension ua ext \<and> (nl = [] \<or> nl = [10])
        \<and> f = tagged_name pre tok ext @ nl)"
proof
  assume "video_id ua f = Some tok"
  then have "re_search (video_pattern ua) f = Some tok" by (simp add: video_id_def)
  from re_search_shape [OF this] show "\<exists>pre ext nl. id_token ua tok \<and> extension ua ext \<and> (nl = [] \<or> nl = [10])
        \<and> f = tagged_name pre tok ext @ nl"
    by (metis append.assoc tagged_name_pre)
next
  assume "\<exists>pre ext nl. id_token ua tok \<and> extension ua ext \<and> (nl = [] \<or> nl = [10])
        \<and> f = tagged_name pre tok ext @ nl"
  then obtain pre ext nl where t: "id_token ua tok" and e: "extension ua ext"
    and nl: "nl = [] \<or> nl = [10]" and f: "f = tagged_name pre tok ext @ nl" by blast
  from f have "f = pre @ tagged_name [] tok ext @ nl"
    by (simp add: tagged_name_def)
  with re_search_finds [OF t e nl, of pre] show "video_id ua f = Some tok"
    by (simp add: video_id_def)
qed

section \<open>The file-name parser against the specification\<close>

text \<open>
  Claim C5, as the code has it. The three file names of the specification are parsed as
  it says. In general the scan reads the id \<open>tok\<close> from a file name exactly when the
  name is some text, \<open>[\<close>, the token \<open>tok\<close> of word characters or hyphens, \<open>]\<close>, a dot
  and an extension of word characters, followed by nothing or by one newline: the
  \<open>$\<close> of the pattern also matches before a final newline.
\<close>

theorem video_id_accepts:
  "video_id ua (py ''Some Title [abc-123].mp4'') = Some (py ''abc-123'')
   \<and> video_id ua (py ''no-brackets.mp4'') = None
   \<and> video_id ua (py ''[x][y].mkv'') = Some (py ''y'')
   \<and> (video_id ua f = Some tok \<longleftrightarrow>
        (\<exists>pre ext nl. id_token ua tok \<and> extension ua ext \<and> (nl = [] \<or> nl = [10])
           \<and> f = tagged_name pre tok ext @ nl))"
proof -
  have a: "video_id ua (py ''Some Title [abc-123].mp4'') = Some (py ''abc-123'')"
    by (simp add: video_id_def video_pattern_def py_def is_word_def word_or_hyphen_def ascii_word_def)
  have b: "video_id ua (py ''no-brackets.mp4'') = None"
    by (simp add: video_id_def video_pattern_def py_def is_word_def word_or_hyphen_def ascii_word_def)
  have c: "video_id ua (py ''[x][y].mkv'') = Some (py ''y'')"
    by (simp add: video_id_def video_pattern_def py_def is_word_def word_or_hyphen_def ascii_word_def)
  from a b c video_id_iff [of ua f tok] show ?thesis by blast
qed

theorem video_id_accepts_witness:
  "video_id (\<lambda>c. False) (py ''a [b-1].mp4'' @ [10]) = Some (py ''b-1'')"
proof -
  have t: "id_token (\<lambda>c. False) (py ''b-1'')"
    by (simp add: id_token_def py_def word_or_hyphen_def is_word_def ascii_word_def)
  have e: "extension (\<lambda>c. False) (py ''mp4'')"
    by (simp add: extension_def py_def is_word_def ascii_word_def)
  have f: "py ''a [b-1].mp4'' @ [10] = tagged_name (py ''a '') (py ''b-1'') (py ''mp4'') @ [10]"
    by (simp add: tagged_name_def py_def)
  from t e f have "\<exists>pre ext nl. id_token (\<lambda>c. False) (py ''b-1'') \<and> extension (\<lambda>c. False) ext
      \<and> (nl = [] \<or> nl = [10]) \<and> py ''a [b-1].mp4'' @ [10] = tagged_name pre (py ''b-1'') ext @ nl"
    by blast
  with video_id_accepts [of "\<lambda>c. False" "py ''a [b-1].mp4'' @ [10]" "py ''b-1''"]
  show ?thesis by blast
qed

text \<open>
  The claim as the specification words it, without the newline, fails: the file name
  \<open>[x].a\<close> followed by a newline does not end with the bracket group and its
  extension, and the scan reads the id \<open>x\<close> from it.
\<close>

theorem video_id_newline_counterexample:
  "video_id (\<lambda>c. False) (py ''[x].a'' @ [10]) = Some (py ''x'')
   \<and> \<not> (\<exists>pre tok ext. id_token (\<lambda>c. False) tok \<and> extension (\<lambda>c. False) ext
          \<and> py ''[x].a'' @ [10] = tagged_name pre tok ext)"
proof -
  have a: "video_id (\<lambda>c. False) (py ''[x].a'' @ [10]) = Some (py ''x'')"
    by (simp add: video_id_def video_pattern_def py_def is_word_def word_or_hyphen_def ascii_word_def)
  have b: "\<not> (\<exists>pre tok ext. id_token (\<lambda>c. False) tok \<and> extension (\<lambda>c. False) ext
          \<and> py ''[x].a'' @ [10] = tagged_name pre tok ext)"
  proof
    assume "\<exists>pre tok ext. id_token (\<lambda>c. False) tok \<and> extension (\<lambda>c. False) ext
          \<and> py ''[x].a'' @ [10] = tagged_name pre tok ext"
    then obtain pre tok ext where e: "extension (\<lambda>c. False) ext"
      and f: "py ''[x].a'' @ [10] = tagged_name pre tok ext" by blast
    from e have ne: "ext \<noteq> []" and w: "is_word (\<lambda>c. False) (last ext)"
      by (simp_all add: extension_def list_all_iff)
    from f ne have "last (py ''[x].a'' @ [10]) = last ext"
      by (simp add: tagged_name_def)
    then have "last ext = 10" by simp
    with w show False by (simp add: is_word_def ascii_word_def)
  qed
  from a b show ?thesis by blast
qed

section \<open>The local scan, the calls and the file system after each step\<close>

lemma scan_files_eq:
  "scan_files ua files acc =
     acc \<union> {v. \<exists>f \<in> set files. d_isfile f \<and> video_id ua (d_name f) = Some v}"
proof (induction files arbitrary: acc)
  case Nil
  show ?case by simp
next
  case (Cons entry files)
  show ?case
    unfolding scan_files.simps Cons.IH
    by (auto split: option.splits)
qed

lemma get_local_videos_iff:
  "v \<in> get_local_videos E fs channel \<longleftrightarrow>
     (\<exists>files f. fs (ch_name channel) = Some files \<and> f \<in> set files \<and> d_isfile f
        \<and> video_id (unicode_alnum E) (d_name f) = Some v)"
  by (auto simp: get_local_videos_def scan_files_eq split: option.splits)

lemma downloads_of_append: "downloads_of (xs @ ys) = downloads_of xs @ downloads_of ys"
  by (induction xs rule: downloads_of.induct) simp_all

lemma globs_of_append: "globs_of (xs @ ys) = globs_of xs @ globs_of ys"
  by (induction xs rule: globs_of.induct) simp_all

lemma downloads_of_map_Download: "downloads_of (map (Download n) vs) = vs"
  by (induction vs) simp_all

lemma globs_of_map_Download: "globs_of (map (Download n) vs) = []"
  by (induction vs) simp_all

lemma downloads_of_map_Unlink: "downloads_of (map (\<lambda>(d, n). Unlink d n) ps) = []"
  by (induction ps) auto

lemma globs_of_map_Unlink: "globs_of (map (\<lambda>(d, n). Unlink d n) ps) = []"
  by (induction ps) auto

lemma calls_download_videos:
  "calls (download_videos E w channel vs) = calls w @ map (Download (ch_name channel)) vs"
  by (induction vs arbitrary: w) simp_all

lemma calls_unlink_each:
  "calls (unlink_each w paths) = calls w @ map (\<lambda>(d, n). Unlink d n) paths"
  by (induction w paths rule: unlink_each.induct) (simp_all split: sum.splits)

lemma calls_cleanup_videos:
  "\<exists>cs. calls (cleanup_videos E w channel ps) = calls w @ cs
        \<and> downloads_of cs = [] \<and> globs_of cs = map purge_pattern ps"
proof (induction ps arbitrary: w)
  case Nil
  show ?case by simp
next
  case (Cons p ps)
  let ?n = "ch_name channel"
  let ?found = "glob E (dirs w) ?n (purge_pattern p)"
  let ?w1 = "unlink_each (w\<lparr>calls := calls w @ [Glob ?n (purge_pattern p)]\<rparr>) ?found"
  from Cons [of ?w1] obtain cs where cs: "calls (cleanup_videos E ?w1 channel ps) = calls ?w1 @ cs"
    and d: "downloads_of cs = []" and g: "globs_of cs = map purge_pattern ps" by blast
  let ?cs = "Glob ?n (purge_pattern p) # map (\<lambda>(d, n). Unlink d n) ?found @ cs"
  have "calls (cleanup_videos E w channel (p # ps)) = calls w @ ?cs"
    using cs by (simp add: calls_unlink_each)
  moreover have "downloads_of ?cs = []"
    using d by (simp add: downloads_of_append downloads_of_map_Unlink)
  moreover have "globs_of ?cs = map purge_pattern (p # ps)"
    using g by (simp add: globs_of_append globs_of_map_Unlink)
  ultimately show ?case by blast
qed

text \<open>
  Deleting only removes entries: after the inner loop a directory holds the entries it
  held, without those that were found and could be unlinked.
\<close>

lemma dirs_os_unlink_step:
  "dirs (case os_unlink (dirs w) dir name of
           Inr fs \<Rightarrow> w\<lparr>dirs := fs, calls := calls w @ [Unlink dir name]\<rparr>
         | Inl e \<Rightarrow> w\<lparr>calls := calls w @ [Unlink dir name]\<rparr>) d
     = map_option (filter (\<lambda>f. \<not> (d = dir \<and> d_name f = name \<and> d_unlink_ok f))) (dirs w d)"
proof (cases "d = dir")
  case True
  show ?thesis
  proof (cases "dirs w dir")
    case None
    with True show ?thesis by (simp add: os_unlink_def)
  next
    case (Some files)
    have id: "\<not> list_ex (\<lambda>f. d_name f = name \<and> d_unlink_ok f) files \<Longrightarrow>
        filter (\<lambda>f. \<not> (d_name f = name \<and> d_unlink_ok f)) files = files"
      by (auto simp: list_ex_iff filter_id_conv)
    with True Some show ?thesis by (auto simp: os_unlink_def)
  qed
next
  case False
  then show ?thesis
    by (cases "dirs w d"; cases "dirs w dir") (auto simp: os_unlink_def)
qed

lemma dirs_unlink_each:
  "dirs (unlink_each w paths) d =
     map_option (filter (\<lambda>f. \<not> ((d, d_name f) \<in> set paths \<and> d_unlink_ok f))) (dirs w d)"
proof (induction w paths rule: unlink_each.induct)
  case (1 w)
  show ?case by (cases "dirs w d") simp_all
next
  case (2 w dir file_name rest)
  show ?case
    unfolding unlink_each.simps "2.IH" dirs_os_unlink_step
    by (cases "dirs w d") (auto intro: filter_cong)
qed

lemma dirs_cleanup_videos_filter:
  "\<exists>P. dirs (cleanup_videos E w channel ps) d = map_option (filter P) (dirs w d)"
proof (induction ps arbitrary: w)
  case Nil
  have "dirs w d = map_option (filter (\<lambda>f. True)) (dirs w d)"
    by (cases "dirs w d") simp_all
  then show ?case by auto
next
  case (Cons p ps)
  let ?w1 = "unlink_each (w\<lparr>calls := calls w @ [Glob (ch_name channel) (purge_pattern p)]\<rparr>)
               (glob E (dirs w) (ch_name channel) (purge_pattern p))"
  from Cons [of ?w1] obtain P where
    P: "dirs (cleanup_videos E ?w1 channel ps) d = map_option (filter P) (dirs ?w1 d)" by blast
  have "dirs ?w1 d = map_option (filter (\<lambda>f. \<not> ((d, d_name f)
            \<in> set (glob E (dirs w) (ch_name channel) (purge_pattern p)) \<and> d_unlink_ok f))) (dirs w d)"
    by (simp add: dirs_unlink_each)
  with P have "dirs (cleanup_videos E w channel (p # ps)) d
      = map_option (filter (\<lambda>f. \<not> ((d, d_name f)
            \<in> set (glob E (dirs w) (ch_name channel) (purge_pattern p)) \<and> d_unlink_ok f) \<and> P f))
          (dirs w d)"
    by (cases "dirs w d") simp_all
  then show ?case by blast
qed

lemma cleanup_videos_append:
  "cleanup_videos E w channel (ps @ qs) = cleanup_videos E (cleanup_videos E w channel ps) channel qs"
  by (induction ps arbitrary: w) simp_all

text \<open>
  The purge where the directory part of the path has no wildcard and the ids have
  neither a wildcard nor a path separator: it removes from the channel's directory the
  entries that can be unlinked, do not begin with a dot and contain one of the ids, and
  touches no other directory.
\<close>

lemma glob_literal:
  assumes "literal_path E name" and "\<not> list_ex (\<lambda>c. glob_magic c \<or> c = 47) p"
  shows "glob E fs name (purge_pattern p) =
     map (Pair name)
       (filter (\<lambda>n. \<not> hidden n \<and> sublist p n)
          (case fs name of None \<Rightarrow> [] | Some files \<Rightarrow> map d_name files))"
  using assms by (simp add: glob_def star_text_def purge_pattern_def)

lemma dirs_cleanup_videos:
  assumes lit: "literal_path E (ch_name channel)"
    and plain: "\<And>p. p \<in> set ps \<Longrightarrow> \<not> list_ex (\<lambda>c. glob_magic c \<or> c = 47) p"
  shows "dirs (cleanup_videos E w channel ps) =
     (dirs w)(ch_name channel :=
        map_option (filter (\<lambda>f. \<not> (d_unlink_ok f \<and> \<not> hidden (d_name f)
                       \<and> (\<exists>p \<in> set ps. sublist p (d_name f)))))
          (dirs w (ch_name channel)))"
  using plain
proof (induction ps arbitrary: w)
  case Nil
  show ?case by (auto simp: fun_eq_iff option.map_ident)
next
  case (Cons p ps)
  let ?n = "ch_name channel"
  have g: "glob E (dirs w) ?n (purge_pattern p) =
     map (Pair ?n)
       (filter (\<lambda>n. \<not> hidden n \<and> sublist p n)
          (case dirs w ?n of None \<Rightarrow> [] | Some files \<Rightarrow> map d_name files))"
    by (rule glob_literal [OF lit]) (simp add: Cons.prems)
  have IH: "dirs (cleanup_videos E w' channel ps) =
     (dirs w')(?n := map_option (filter (\<lambda>f. \<not> (d_unlink_ok f \<and> \<not> hidden (d_name f)
                       \<and> (\<exists>p \<in> set ps. sublist p (d_name f))))) (dirs w' ?n))" for w'
    by (rule Cons.IH) (simp add: Cons.prems)
  show ?case
  proof (rule ext)
    fix d
    show "dirs (cleanup_videos E w channel (p # ps)) d =
      ((dirs w)(?n := map_option (filter (\<lambda>f. \<not> (d_unlink_ok f \<and> \<not> hidden (d_name f)
                       \<and> (\<exists>p \<in> set (p # ps). sublist p (d_name f))))) (dirs w ?n))) d"
    proof (cases "d = ?n")
      case True
      then show ?thesis
        unfolding cleanup_videos.simps IH
        by (cases "dirs w ?n") (auto simp: dirs_unlink_each g intro!: filter_cong)
    next
      case False
      then have "filter (\<lambda>f. \<not> ((d, d_name f) \<in> set (glob E (dirs w) ?n (purge_pattern p))
                  \<and> d_unlink_ok f)) files = files" for files
        by (auto simp: g filter_id_conv)
      with False show ?thesis
        unfolding cleanup_videos.simps IH
        by (cases "dirs w d") (simp_all add: dirs_unlink_each)
    qed
  qed
qed

section \<open>The ids of the local scan\<close>

lemma scanned_id_token:
  "v \<in> get_local_videos E fs channel \<Longrightarrow> id_token (unicode_alnum E) v"
  unfolding get_local_videos_iff video_id_iff by blast

lemma id_token_no_magic: "id_token ua v \<Longrightarrow> \<not> has_magic v"
  using not_word_or_hyphen_special(1,5,6) [of ua]
  by (auto simp: id_token_def has_magic_def list_all_iff list_ex_iff glob_magic_def)

lemma id_token_plain: "id_token ua v \<Longrightarrow> \<not> list_ex (\<lambda>c. glob_magic c \<or> c = 47) v"
proof -
  have "\<not> word_or_hyphen ua 47"
    by (simp add: word_or_hyphen_def is_word_def ascii_word_def)
  then show "id_token ua v \<Longrightarrow> \<not> list_ex (\<lambda>c. glob_magic c \<or> c = 47) v"
    using not_word_or_hyphen_special(1,5,6) [of ua]
    by (auto simp: id_token_def list_all_iff list_ex_iff glob_magic_def)
qed

text \<open>
  Claim C9. Every id that the local scan returns is a non-empty text of word characters
  and hyphens. The pattern the purge builds from it is an asterisk, the id and an
  asterisk, and no character of the id is a glob metacharacter (\<open>*\<close>, \<open>?\<close>, \<open>[\<close>).
\<close>

theorem scanned_id_plain:
  "v \<in> get_local_videos E fs channel \<Longrightarrow>
   v \<noteq> [] \<and> (\<forall>c \<in> set v. is_word (unicode_alnum E) c \<or> c = 45)
   \<and> purge_pattern v = [42] @ v @ [42] \<and> (\<forall>c \<in> set v. \<not> glob_magic c)"
proof -
  assume "v \<in> get_local_videos E fs channel"
  then have t: "id_token (unicode_alnum E) v" by (rule scanned_id_token)
  then have "v \<noteq> []" and "\<forall>c \<in> set v. is_word (unicode_alnum E) c \<or> c = 45"
    by (simp_all add: id_token_def list_all_iff word_or_hyphen_def)
  moreover from id_token_no_magic [OF t] have "\<forall>c \<in> set v. \<not> glob_magic c"
    by (simp add: has_magic_def list_ex_iff)
  moreover have "purge_pattern v = [42] @ v @ [42]" by (simp add: purge_pattern_def)
  ultimately show ?thesis by blast
qed

lemma demo_local_videos:
  "get_local_videos demo_env (dirs demo_world) good_channel = {py ''v1'', py ''v2''}"
  by (simp add: get_local_videos_def demo_env_def demo_world_def good_channel_def mp4_def
      video_id_def video_pattern_def py_def is_word_def word_or_hyphen_def ascii_word_def
      insert_commute)

theorem scanned_id_plain_witness:
  "py ''v1'' \<in> get_local_videos demo_env (dirs demo_world) good_channel
   \<and> py ''v1'' \<noteq> [] \<and> list_all (\<lambda>c. \<not> glob_magic c) (py ''v1'')
   \<and> purge_pattern (py ''v1'') = py ''*v1*''"
proof -
  have m: "py ''v1'' \<in> get_local_videos demo_env (dirs demo_world) good_channel"
    by (simp add: demo_local_videos)
  from scanned_id_plain [OF m] have "list_all (\<lambda>c. \<not> glob_magic c) (py ''v1'')"
    and "purge_pattern (py ''v1'') = [42] @ py ''v1'' @ [42]"
    by (simp_all add: list_all_iff)
  with m show ?thesis by (simp add: py_def)
qed

section \<open>One pass over a channel\<close>

lemma sync_channel_Inr:
  assumes "get_latest_videos (feed E (ch_id channel)) (ch_keep channel) = Inr R"
  shows "sync_channel E w channel =
     Inr (cleanup_videos E
            (download_videos E w channel (order E (R - get_local_videos E (dirs w) channel)))
            channel (order E (get_local_videos E (dirs w) channel - R)))"
  using assms by (simp add: sync_channel_def Let_def)

lemma sync_channel_Inl:
  "sync_channel E w channel = Inl e \<longleftrightarrow>
     get_latest_videos (feed E (ch_id channel)) (ch_keep channel) = Inl e"
  by (simp add: sync_channel_def Let_def split: sum.splits)

lemma inj_purge_pattern: "inj purge_pattern"
  by (simp add: inj_def purge_pattern_def)

lemma purged_ids:
  assumes "set ps = S"
  shows "{v. purge_pattern v \<in> set (map purge_pattern ps)} = S"
proof -
  have "\<And>v. purge_pattern v \<in> purge_pattern ` S \<longleftrightarrow> v \<in> S"
    by (rule inj_image_mem_iff [OF inj_purge_pattern])
  with assms show ?thesis by simp
qed

text \<open>
  Claim C1. When the remote lookup returns the set \<open>R\<close> and the local scan the set
  \<open>L\<close>, \<open>sync_channel\<close> runs the downloader on the ids of \<open>R - L\<close>, each once, and
  globs for deletion the patterns of the ids of \<open>L - R\<close>; no id is both fetched and
  purged.
\<close>

theorem sync_channel_reconciles:
  assumes "get_latest_videos (feed E (ch_id channel)) (ch_keep channel) = Inr R"
    and "L = get_local_videos E (dirs w) channel"
    and "iterates (order E) (R - L)"
    and "iterates (order E) (L - R)"
  shows "\<exists>w' cs. sync_channel E w channel = Inr w' \<and> calls w' = calls w @ cs
           \<and> set (downloads_of cs) = R - L \<and> distinct (downloads_of cs)
           \<and> {v. purge_pattern v \<in> set (globs_of cs)} = L - R
           \<and> set (downloads_of cs) \<inter> {v. purge_pattern v \<in> set (globs_of cs)} = {}"
proof -
  let ?w1 = "download_videos E w channel (order E (R - L))"
  let ?w2 = "cleanup_videos E ?w1 channel (order E (L - R))"
  from calls_cleanup_videos [of E ?w1 channel "order E (L - R)"]
  obtain cs where cs: "calls ?w2 = calls ?w1 @ cs" and d: "downloads_of cs = []"
    and g: "globs_of cs = map purge_pattern (order E (L - R))" by blast
  let ?cs = "map (Download (ch_name channel)) (order E (R - L)) @ cs"
  have run: "sync_channel E w channel = Inr ?w2"
    using assms(1,2) by (simp add: sync_channel_Inr)
  have c: "calls ?w2 = calls w @ ?cs"
    using cs by (simp add: calls_download_videos)
  have dl: "downloads_of ?cs = order E (R - L)"
    using d by (simp add: downloads_of_append downloads_of_map_Download)
  have gl: "globs_of ?cs = map purge_pattern (order E (L - R))"
    using g by (simp add: globs_of_append globs_of_map_Download)
  have f: "set (downloads_of ?cs) = R - L" and di: "distinct (downloads_of ?cs)"
    using assms(3) dl by (simp_all add: iterates_def)
  have p: "{v. purge_pattern v \<in> set (globs_of ?cs)} = L - R"
    unfolding gl using assms(4) by (intro purged_ids) (simp add: iterates_def)
  have dj: "set (downloads_of ?cs) \<inter> {v. purge_pattern v \<in> set (globs_of ?cs)} = {}"
    unfolding f p by blast
  show ?thesis
    by (rule exI [of _ ?w2], rule exI [of _ ?cs]) (intro conjI run c f di p dj)
qed

lemma demo_latest_videos:
  "get_latest_videos (feed demo_env (ch_id good_channel)) (ch_keep good_channel)
     = Inr {py ''v3'', py ''v2''}"
  by (auto simp: get_latest_videos_def demo_env_def demo_feed_def good_channel_def)

lemma py_neq:
  "py ''v1'' \<noteq> py ''v2''" "py ''v1'' \<noteq> py ''v3''" "py ''v2'' \<noteq> py ''v3''"
  "py ''v2'' \<noteq> py ''v1''" "py ''v3'' \<noteq> py ''v1''" "py ''v3'' \<noteq> py ''v2''"
  "py ''abc'' \<noteq> py ''v1''" "py ''abc'' \<noteq> py ''v2''" "py ''abc'' \<noteq> py ''v3''"
  by (simp_all add: py_def)

lemma demo_sets:
  "{py ''v3'', py ''v2''} - {py ''v1'', py ''v2''} = {py ''v3''}"
  "{py ''v1'', py ''v2''} - {py ''v3'', py ''v2''} = {py ''v1''}"
  using py_neq by auto

lemma demo_order_values:
  "order demo_env {py ''v3''} = [py ''v3'']"
  "order demo_env {py ''v1''} = [py ''v1'']"
  "order demo_env {py ''v3'', py ''v2''} = [py ''v2'', py ''v3'']"
  "order demo_env {} = []"
  using py_neq by (simp_all add: demo_env_def demo_order_def)

theorem sync_channel_reconciles_witness:
  "get_latest_videos (feed demo_env (ch_id good_channel)) (ch_keep good_channel)
     = Inr {py ''v3'', py ''v2''}
   \<and> get_local_videos demo_env (dirs demo_world) good_channel = {py ''v1'', py ''v2''}
   \<and> iterates (order demo_env) ({py ''v3'', py ''v2''} - {py ''v1'', py ''v2''})
   \<and> iterates (order demo_env) ({py ''v1'', py ''v2''} - {py ''v3'', py ''v2''})
   \<and> (\<exists>w' cs. sync_channel demo_env demo_world good_channel = Inr w'
        \<and> calls w' = calls demo_world @ cs
        \<and> set (downloads_of cs) = {py ''v3''}
        \<and> {v. purge_pattern v \<in> set (globs_of cs)} = {py ''v1''})"
proof -
  have i1: "iterates (order demo_env) ({py ''v3'', py ''v2''} - {py ''v1'', py ''v2''})"
    by (simp add: demo_sets iterates_def demo_order_values)
  have i2: "iterates (order demo_env) ({py ''v1'', py ''v2''} - {py ''v3'', py ''v2''})"
    by (simp add: demo_sets iterates_def demo_order_values)
  from sync_channel_reconciles [OF demo_latest_videos demo_local_videos [symmetric] i1 i2]
  have "\<exists>w' cs. sync_channel demo_env demo_world good_channel = Inr w'
        \<and> calls w' = calls demo_world @ cs
        \<and> set (downloads_of cs) = {py ''v3''}
        \<and> {v. purge_pattern v \<in> set (globs_of cs)} = {py ''v1''}"
    unfolding demo_sets by blast
  with demo_latest_videos demo_local_videos i1 i2 show ?thesis by blast
qed

text \<open>
  Claim C8. When the directory of the channel cannot be listed, the local scan returns
  the empty set and raises nothing; \<open>sync_channel\<close> goes on and, for a remote set
  \<open>R\<close>, runs the downloader on every id of \<open>R\<close>.
\<close>

theorem unlistable_directory_scans_empty:
  assumes "dirs w (ch_name channel) = None"
  shows "get_local_videos E (dirs w) channel = {}
     \<and> (\<forall>R. get_latest_videos (feed E (ch_id channel)) (ch_keep channel) = Inr R \<longrightarrow>
          (\<exists>w'. sync_channel E w channel = Inr w'
             \<and> downloads_of (calls w') = downloads_of (calls w) @ order E R))"
proof -
  have l: "get_local_videos E (dirs w) channel = {}"
    using assms by (simp add: get_local_videos_def)
  have "\<exists>w'. sync_channel E w channel = Inr w'
             \<and> downloads_of (calls w') = downloads_of (calls w) @ order E R"
    if r: "get_latest_videos (feed E (ch_id channel)) (ch_keep channel) = Inr R" for R
  proof -
    let ?w1 = "download_videos E w channel (order E R)"
    let ?w2 = "cleanup_videos E ?w1 channel (order E {})"
    from calls_cleanup_videos [of E ?w1 channel "order E {}"]
    obtain cs where cs: "calls ?w2 = calls ?w1 @ cs" and d: "downloads_of cs = []" by blast
    have "sync_channel E w channel = Inr ?w2"
      using r l by (simp add: sync_channel_Inr)
    moreover have "downloads_of (calls ?w2) = downloads_of (calls w) @ order E R"
      using cs d by (simp add: calls_download_videos downloads_of_append downloads_of_map_Download)
    ultimately show ?thesis by blast
  qed
  with l show ?thesis by blast
qed

theorem unlistable_directory_scans_empty_witness:
  "dirs demo_world (ch_name (good_channel\<lparr>ch_name := py ''new''\<rparr>)) = None
   \<and> get_local_videos demo_env (dirs demo_world) (good_channel\<lparr>ch_name := py ''new''\<rparr>) = {}
   \<and> (\<exists>w'. sync_channel demo_env demo_world (good_channel\<lparr>ch_name := py ''new''\<rparr>) = Inr w'
        \<and> downloads_of (calls w') = [py ''v2'', py ''v3''])"
proof -
  let ?c = "good_channel\<lparr>ch_name := py ''new''\<rparr>"
  have n: "dirs demo_world (ch_name ?c) = None"
    by (simp add: demo_world_def py_def)
  have r: "get_latest_videos (feed demo_env (ch_id ?c)) (ch_keep ?c) = Inr {py ''v3'', py ''v2''}"
    using demo_latest_videos by (simp add: good_channel_def)
  from unlistable_directory_scans_empty [OF n, of demo_env] r
  have "get_local_videos demo_env (dirs demo_world) ?c = {}"
    and "\<exists>w'. sync_channel demo_env demo_world ?c = Inr w'
        \<and> downloads_of (calls w') = downloads_of (calls demo_world) @ order demo_env {py ''v3'', py ''v2''}"
    by blast+
  then show ?thesis
    using n by (simp add: demo_order_values demo_world_def)
qed

section \<open>What the purge deletes\<close>

lemma demo_literal_path: "literal_path demo_env (ch_name good_channel)"
  by (simp add: literal_path_def demo_env_def good_channel_def has_magic_def glob_magic_def py_def)

lemma abc_plain: "\<not> list_ex (\<lambda>c. glob_magic c \<or> c = 47) (py ''abc'')"
  by (simp add: glob_magic_def py_def)

lemma purge_world_scan:
  "py ''abc'' \<in> get_local_videos demo_env (dirs purge_world) good_channel"
  by (simp add: get_local_videos_def demo_env_def purge_world_def good_channel_def regular_file_def
      video_id_def video_pattern_def py_def is_word_def word_or_hyphen_def ascii_word_def)

lemma purge_world_after:
  "dirs (cleanup_videos demo_env purge_world good_channel [py ''abc'']) (py ''good'')
     = Some [regular_file ''.abc_thumbnail.jpg'', regular_file ''other [xyz].mp4'']"
proof -
  have "dirs (cleanup_videos demo_env purge_world good_channel [py ''abc'']) =
     (dirs purge_world)(ch_name good_channel :=
        map_option (filter (\<lambda>f. \<not> (d_unlink_ok f \<and> \<not> hidden (d_name f)
                       \<and> (\<exists>p \<in> set [py ''abc'']. sublist p (d_name f)))))
          (dirs purge_world (ch_name good_channel)))"
    by (rule dirs_cleanup_videos [OF demo_literal_path]) (simp add: abc_plain)
  then show ?thesis
    by (simp add: hidden_def purge_world_def good_channel_def regular_file_def py_def
        sublist_Cons_right)
qed

text \<open>
  Claim C3, as the code has it by design. Let neither the output path nor the channel's
  name hold a glob wildcard (and let them not both be empty). For an id \<open>v\<close> of the
  scan among the ids to purge, \<open>cleanup_videos\<close> deletes every entry of the channel's
  directory whose name contains \<open>v\<close>, does not begin with a dot, and can be unlinked,
  whether or not the name has the shape the scan looks for; it adds no entry.
\<close>

theorem cleanup_videos_deletes_matches:
  assumes "literal_path E (ch_name channel)"
    and "v \<in> set ps"
    and "v \<in> get_local_videos E fs0 channel0"
    and "dirs w (ch_name channel) = Some files"
    and "f \<in> set files"
    and "sublist v (d_name f)"
    and "\<not> hidden (d_name f)"
    and "d_unlink_ok f"
  shows "\<exists>files'. dirs (cleanup_videos E w channel ps) (ch_name channel) = Some files'
           \<and> f \<notin> set files' \<and> set files' \<subseteq> set files"
proof -
  let ?n = "ch_name channel"
  from assms(2) obtain pre post where ps: "ps = pre @ [v] @ post"
    by (auto simp: in_set_conv_decomp)
  let ?wa = "cleanup_videos E w channel pre"
  let ?wb = "cleanup_videos E ?wa channel [v]"
  have run: "cleanup_videos E w channel ps = cleanup_videos E ?wb channel post"
    unfolding ps by (simp only: cleanup_videos_append)
  from dirs_cleanup_videos_filter [of E w channel pre ?n] assms(4)
  obtain P where a: "dirs ?wa ?n = Some (filter P files)" by auto
  have "id_token (unicode_alnum E) v"
    using assms(3) by (rule scanned_id_token)
  then have plain: "\<not> list_ex (\<lambda>c. glob_magic c \<or> c = 47) v" by (rule id_token_plain)
  have "dirs ?wb =
     (dirs ?wa)(?n := map_option (filter (\<lambda>f. \<not> (d_unlink_ok f \<and> \<not> hidden (d_name f)
                       \<and> (\<exists>p \<in> set [v]. sublist p (d_name f))))) (dirs ?wa ?n))"
    by (rule dirs_cleanup_videos [OF assms(1)]) (simp add: plain)
  with a have b: "dirs ?wb ?n = Some (filter (\<lambda>f. \<not> (d_unlink_ok f \<and> \<not> hidden (d_name f)
                       \<and> sublist v (d_name f))) (filter P files))"
    by simp
  from dirs_cleanup_videos_filter [of E ?wb channel post ?n] b
  obtain Q where c: "dirs (cleanup_videos E ?wb channel post) ?n
      = Some (filter Q (filter (\<lambda>f. \<not> (d_unlink_ok f \<and> \<not> hidden (d_name f)
                       \<and> sublist v (d_name f))) (filter P files)))" by auto
  let ?files' = "filter Q (filter (\<lambda>f. \<not> (d_unlink_ok f \<and> \<not> hidden (d_name f)
                       \<and> sublist v (d_name f))) (filter P files))"
  have "f \<notin> set ?files'" using assms(6,7,8) by simp
  moreover have "set ?files' \<subseteq> set files" by auto
  ultimately show ?thesis using run c by simp
qed

theorem cleanup_videos_deletes_matches_witness:
  "literal_path demo_env (ch_name good_channel)
   \<and> py ''abc'' \<in> set [py ''abc'']
   \<and> py ''abc'' \<in> get_local_videos demo_env (dirs purge_world) good_channel
   \<and> regular_file ''abc_thumbnail.jpg'' \<in> set (the (dirs purge_world (ch_name good_channel)))
   \<and> sublist (py ''abc'') (d_name (regular_file ''abc_thumbnail.jpg''))
   \<and> \<not> hidden (d_name (regular_file ''abc_thumbnail.jpg''))
   \<and> d_unlink_ok (regular_file ''abc_thumbnail.jpg'')
   \<and> (\<exists>files'. dirs (cleanup_videos demo_env purge_world good_channel [py ''abc''])
                    (ch_name good_channel) = Some files'
          \<and> regular_file ''abc_thumbnail.jpg'' \<notin> set files')
   \<and> dirs (cleanup_videos demo_env purge_world good_channel [py ''abc'']) (py ''good'')
       = Some [regular_file ''.abc_thumbnail.jpg'', regular_file ''other [xyz].mp4'']"
proof -
  let ?f = "regular_file ''abc_thumbnail.jpg''"
  let ?files = "[regular_file ''Title [abc].mp4'', regular_file ''abc_thumbnail.jpg'',
                regular_file ''copy [abc].mkv'', regular_file ''.abc_thumbnail.jpg'',
                regular_file ''other [xyz].mp4'']"
  have a: "py ''abc'' \<in> set [py ''abc'']" by simp
  have b: "py ''abc'' \<in> get_local_videos demo_env (dirs purge_world) good_channel"
    by (rule purge_world_scan)
  have d: "dirs purge_world (ch_name good_channel) = Some ?files"
    by (simp add: purge_world_def good_channel_def)
  have m: "?f \<in> set ?files" by simp
  have s: "sublist (py ''abc'') (d_name ?f)"
    by (simp add: regular_file_def py_def sublist_Cons_right)
  have h: "\<not> hidden (d_name ?f)" by (simp add: regular_file_def py_def hidden_def)
  have u: "d_unlink_ok ?f" by (simp add: regular_file_def)
  from cleanup_videos_deletes_matches [OF demo_literal_path a b d m s h u]
  have "\<exists>files'. dirs (cleanup_videos demo_env purge_world good_channel [py ''abc''])
                    (ch_name good_channel) = Some files' \<and> ?f \<notin> set files'"
    by blast
  with demo_literal_path a b d m s h u purge_world_after show ?thesis by simp
qed

text \<open>
  The claim as the specification words it fails on a hidden file: \<open>.abc_thumbnail.jpg\<close>
  contains the purged id \<open>abc\<close> and is still there after the purge, because
  \<open>glob.glob\<close> does not return names that begin with a dot for a pattern that begins
  with an asterisk.
\<close>

theorem cleanup_videos_hidden_counterexample:
  "py ''abc'' \<in> get_local_videos demo_env (dirs purge_world) good_channel
   \<and> sublist (py ''abc'') (py ''.abc_thumbnail.jpg'')
   \<and> dirs (cleanup_videos demo_env purge_world good_channel [py ''abc'']) (py ''good'')
       = Some [regular_file ''.abc_thumbnail.jpg'', regular_file ''other [xyz].mp4'']"
proof -
  have "sublist (py ''abc'') (py ''.abc_thumbnail.jpg'')"
    by (simp add: py_def sublist_Cons_right)
  with purge_world_scan purge_world_after show ?thesis by simp
qed

section \<open>The local set after a pass in which every fetch and purge succeeds\<close>

lemma local_after_downloads:
  assumes "\<And>v fs. v \<in> set vs \<Longrightarrow>
      get_local_videos E (download E (ch_name channel) v fs) channel
        = insert v (get_local_videos E fs channel)"
  shows "get_local_videos E (dirs (download_videos E w channel vs)) channel
           = get_local_videos E (dirs w) channel \<union> set vs"
  using assms
proof (induction vs arbitrary: w)
  case Nil
  show ?case by simp
next
  case (Cons v vs)
  let ?w = "w\<lparr>dirs := download E (ch_name channel) v (dirs w),
               calls := calls w @ [Download (ch_name channel) v]\<rparr>"
  have "get_local_videos E (dirs (download_videos E ?w channel vs)) channel
          = get_local_videos E (dirs ?w) channel \<union> set vs"
    by (rule Cons.IH) (simp add: Cons.prems)
  moreover have "get_local_videos E (dirs ?w) channel = insert v (get_local_videos E (dirs w) channel)"
    by (simp add: Cons.prems)
  ultimately show ?case by simp
qed

text \<open>
  One purge that removes, of the files that carry an id, exactly those that carry the
  purged id takes exactly that id out of the local set.
\<close>

lemma local_after_purge:
  assumes exact: "\<And>files files' f. dirs w (ch_name channel) = Some files
        \<Longrightarrow> dirs (cleanup_videos E w channel [v]) (ch_name channel) = Some files'
        \<Longrightarrow> f \<in> set files \<Longrightarrow> d_isfile f
        \<Longrightarrow> video_id (unicode_alnum E) (d_name f) \<noteq> None
        \<Longrightarrow> (f \<notin> set files') = (video_id (unicode_alnum E) (d_name f) = Some v)"
  shows "get_local_videos E (dirs (cleanup_videos E w channel [v])) channel
           = get_local_videos E (dirs w) channel - {v}"
proof (cases "dirs w (ch_name channel)")
  case None
  from dirs_cleanup_videos_filter [of E w channel "[v]" "ch_name channel"] None
  have "dirs (cleanup_videos E w channel [v]) (ch_name channel) = None" by auto
  with None show ?thesis by (simp add: get_local_videos_def)
next
  case (Some files)
  let ?ua = "unicode_alnum E"
  from dirs_cleanup_videos_filter [of E w channel "[v]" "ch_name channel"] Some
  obtain P where d: "dirs (cleanup_videos E w channel [v]) (ch_name channel)
      = Some (filter P files)" by auto
  have kept: "f \<in> set (filter P files) \<longleftrightarrow> u \<noteq> v"
    if "f \<in> set files" "d_isfile f" "video_id ?ua (d_name f) = Some u" for f u
    using exact [OF Some d that(1,2)] that(3) by auto
  have "get_local_videos E (dirs (cleanup_videos E w channel [v])) channel
        = {u. \<exists>f \<in> set (filter P files). d_isfile f \<and> video_id ?ua (d_name f) = Some u}"
    using d by (simp add: get_local_videos_def scan_files_eq)
  also have "\<dots> = {u. \<exists>f \<in> set files. d_isfile f \<and> video_id ?ua (d_name f) = Some u} - {v}"
  proof (rule set_eqI)
    fix u
    show "u \<in> {u. \<exists>f \<in> set (filter P files). d_isfile f \<and> video_id ?ua (d_name f) = Some u}
      \<longleftrightarrow> u \<in> {u. \<exists>f \<in> set files. d_isfile f \<and> video_id ?ua (d_name f) = Some u} - {v}"
    proof
      assume "u \<in> {u. \<exists>f \<in> set (filter P files). d_isfile f \<and> video_id ?ua (d_name f) = Some u}"
      then obtain f where f: "f \<in> set (filter P files)" "d_isfile f"
        "video_id ?ua (d_name f) = Some u" by blast
      then have m: "f \<in> set files" by simp
      from kept [OF m f(2,3)] f(1) have "u \<noteq> v" by simp
      with m f(2,3) show "u \<in> {u. \<exists>f \<in> set files. d_isfile f \<and> video_id ?ua (d_name f) = Some u} - {v}"
        by blast
    next
      assume "u \<in> {u. \<exists>f \<in> set files. d_isfile f \<and> video_id ?ua (d_name f) = Some u} - {v}"
      then obtain f where f: "f \<in> set files" "d_isfile f"
        "video_id ?ua (d_name f) = Some u" and "u \<noteq> v" by blast
      with kept [OF f] have "f \<in> set (filter P files)" by simp
      with f(2,3) show "u \<in> {u. \<exists>f \<in> set (filter P files). d_isfile f \<and> video_id ?ua (d_name f) = Some u}"
        by blast
    qed
  qed
  finally show ?thesis using Some by (simp add: get_local_videos_def scan_files_eq)
qed

lemma local_after_cleanup_run:
  assumes "\<And>pre v post. ps = pre @ v # post \<Longrightarrow>
      get_local_videos E (dirs (cleanup_videos E w channel (pre @ [v]))) channel
        = get_local_videos E (dirs (cleanup_videos E w channel pre)) channel - {v}"
  shows "get_local_videos E (dirs (cleanup_videos E w channel ps)) channel
           = get_local_videos E (dirs w) channel - set ps"
  using assms
proof (induction ps rule: rev_induct)
  case Nil
  show ?case by simp
next
  case (snoc v qs)
  have "get_local_videos E (dirs (cleanup_videos E w channel qs)) channel
          = get_local_videos E (dirs w) channel - set qs"
  proof (rule snoc.IH)
    fix pre u post
    assume "qs = pre @ u # post"
    then have "qs @ [v] = pre @ u # (post @ [v])" by simp
    then show "get_local_videos E (dirs (cleanup_videos E w channel (pre @ [u]))) channel
        = get_local_videos E (dirs (cleanup_videos E w channel pre)) channel - {u}"
      by (rule snoc.prems)
  qed
  moreover have "get_local_videos E (dirs (cleanup_videos E w channel (qs @ [v]))) channel
        = get_local_videos E (dirs (cleanup_videos E w channel qs)) channel - {v}"
    by (rule snoc.prems) simp
  ultimately show ?case by auto
qed

text \<open>
  Claim C2. Let the remote lookup return \<open>R\<close> and the local scan \<open>L\<close>. If every fetch
  succeeds (the downloader run for an id of \<open>R - L\<close> adds exactly that id to the local
  set, whatever the directory holds) and every purge succeeds (each purge of the pass,
  in the directory it finds, removes, of the files that carry an id, exactly those that
  carry the purged id), then after \<open>sync_channel\<close> the local scan returns \<open>R\<close>.
\<close>

theorem sync_channel_converges:
  assumes lookup: "get_latest_videos (feed E (ch_id channel)) (ch_keep channel) = Inr R"
    and L: "L = get_local_videos E (dirs w) channel"
    and it1: "iterates (order E) (R - L)"
    and it2: "iterates (order E) (L - R)"
    and fetch: "\<And>v fs. v \<in> R - L \<Longrightarrow>
        get_local_videos E (download E (ch_name channel) v fs) channel
          = insert v (get_local_videos E fs channel)"
    and w1: "w1 = download_videos E w channel (order E (R - L))"
    and purge: "\<And>pre v post files files' f. order E (L - R) = pre @ v # post
        \<Longrightarrow> dirs (cleanup_videos E w1 channel pre) (ch_name channel) = Some files
        \<Longrightarrow> dirs (cleanup_videos E w1 channel (pre @ [v])) (ch_name channel) = Some files'
        \<Longrightarrow> f \<in> set files \<Longrightarrow> d_isfile f
        \<Longrightarrow> video_id (unicode_alnum E) (d_name f) \<noteq> None
        \<Longrightarrow> (f \<notin> set files') = (video_id (unicode_alnum E) (d_name f) = Some v)"
  shows "\<exists>w'. sync_channel E w channel = Inr w' \<and> get_local_videos E (dirs w') channel = R"
proof -
  let ?ps = "order E (L - R)"
  let ?w2 = "cleanup_videos E w1 channel ?ps"
  have run: "sync_channel E w channel = Inr ?w2"
    using lookup L w1 by (simp add: sync_channel_Inr)
  have s1: "set (order E (R - L)) = R - L" and s2: "set ?ps = L - R"
    using it1 it2 by (simp_all add: iterates_def)
  have l1: "get_local_videos E (dirs w1) channel = L \<union> (R - L)"
    unfolding w1 L
    using local_after_downloads [of "order E (R - L)" E channel w] fetch s1 L by simp
  have step: "get_local_videos E (dirs (cleanup_videos E w1 channel (pre @ [v]))) channel
        = get_local_videos E (dirs (cleanup_videos E w1 channel pre)) channel - {v}"
    if ps: "?ps = pre @ v # post" for pre v post
  proof -
    let ?wk = "cleanup_videos E w1 channel pre"
    have "get_local_videos E (dirs (cleanup_videos E ?wk channel [v])) channel
        = get_local_videos E (dirs ?wk) channel - {v}"
    proof (rule local_after_purge)
      fix files files' f
      assume "dirs ?wk (ch_name channel) = Some files"
        and "dirs (cleanup_videos E ?wk channel [v]) (ch_name channel) = Some files'"
        and "f \<in> set files" and "d_isfile f"
        and "video_id (unicode_alnum E) (d_name f) \<noteq> None"
      then show "(f \<notin> set files') = (video_id (unicode_alnum E) (d_name f) = Some v)"
        using purge [OF ps, of files files' f] by (simp add: cleanup_videos_append)
    qed
    then show ?thesis by (simp add: cleanup_videos_append)
  qed
  have "get_local_videos E (dirs ?w2) channel = get_local_videos E (dirs w1) channel - set ?ps"
    by (rule local_after_cleanup_run) (rule step)
  with l1 s2 have "get_local_videos E (dirs ?w2) channel = R" by blast
  with run show ?thesis by blast
qed

lemma mp4_simps:
  "d_isfile (mp4 v)" "d_unlink_ok (mp4 v)" "d_name (mp4 v) = py ''video ['' @ v @ py ''].mp4''"
  by (simp_all add: mp4_def)

lemma mp4_inj: "mp4 a = mp4 b \<longleftrightarrow> a = b"
  by (simp add: mp4_def)

lemma video_id_mp4: "id_token ua v \<Longrightarrow> video_id ua (d_name (mp4 v)) = Some v"
proof -
  assume t: "id_token ua v"
  have e: "extension ua (py ''mp4'')"
    by (simp add: extension_def py_def is_word_def ascii_word_def)
  have n: "d_name (mp4 v) = tagged_name (py ''video '') v (py ''mp4'') @ []"
    by (simp add: mp4_simps tagged_name_def py_def)
  from t e n show ?thesis unfolding video_id_iff by blast
qed

lemma demo_id_tokens:
  "id_token ua (py ''v1'')" "id_token ua (py ''v2'')" "id_token ua (py ''v3'')"
  by (simp_all add: id_token_def py_def word_or_hyphen_def is_word_def ascii_word_def)

lemma demo_fetch:
  assumes "id_token (unicode_alnum demo_env) v"
  shows "get_local_videos demo_env (download demo_env (ch_name c) v fs) c
           = insert v (get_local_videos demo_env fs c)"
proof -
  have d: "download demo_env (ch_name c) v fs (ch_name c)
             = Some ((case fs (ch_name c) of None \<Rightarrow> [] | Some files \<Rightarrow> files) @ [mp4 v])"
    by (simp add: demo_env_def demo_download_def)
  show ?thesis
    unfolding get_local_videos_def d
    using video_id_mp4 [OF assms]
    by (auto simp: scan_files_eq mp4_simps(1) split: option.splits)
qed

lemma demo_after_downloads:
  "dirs (download_videos demo_env demo_world good_channel [py ''v3'']) (ch_name good_channel)
     = Some [mp4 (py ''v1''), mp4 (py ''v2''), mp4 (py ''v3'')]"
  by (simp add: demo_env_def demo_download_def demo_world_def good_channel_def)

lemma demo_v1_plain: "\<not> list_ex (\<lambda>c. glob_magic c \<or> c = 47) (py ''v1'')"
  by (simp add: glob_magic_def py_def)

lemma demo_after_purge:
  "dirs (cleanup_videos demo_env
           (download_videos demo_env demo_world good_channel [py ''v3''])
           good_channel [py ''v1'']) (ch_name good_channel)
     = Some [mp4 (py ''v2''), mp4 (py ''v3'')]"
proof -
  let ?w1 = "download_videos demo_env demo_world good_channel [py ''v3'']"
  have "dirs (cleanup_videos demo_env ?w1 good_channel [py ''v1'']) =
     (dirs ?w1)(ch_name good_channel :=
        map_option (filter (\<lambda>f. \<not> (d_unlink_ok f \<and> \<not> hidden (d_name f)
                       \<and> (\<exists>p \<in> set [py ''v1'']. sublist p (d_name f)))))
          (dirs ?w1 (ch_name good_channel)))"
    by (rule dirs_cleanup_videos [OF demo_literal_path]) (simp add: demo_v1_plain)
  then have "dirs (cleanup_videos demo_env ?w1 good_channel [py ''v1'']) (ch_name good_channel)
      = map_option (filter (\<lambda>f. \<not> (d_unlink_ok f \<and> \<not> hidden (d_name f)
                       \<and> sublist (py ''v1'') (d_name f))))
          (Some [mp4 (py ''v1''), mp4 (py ''v2''), mp4 (py ''v3'')])"
    by (simp only: demo_after_downloads) simp
  then show ?thesis
    by (simp add: hidden_def mp4_def py_def sublist_Cons_right)
qed

theorem sync_channel_converges_witness:
  "get_latest_videos (feed demo_env (ch_id good_channel)) (ch_keep good_channel)
     = Inr {py ''v3'', py ''v2''}
   \<and> get_local_videos demo_env (dirs demo_world) good_channel = {py ''v1'', py ''v2''}
   \<and> (\<exists>w'. sync_channel demo_env demo_world good_channel = Inr w'
        \<and> get_local_videos demo_env (dirs w') good_channel = {py ''v3'', py ''v2''})"
proof -
  let ?R = "{py ''v3'', py ''v2''}"
  let ?L = "{py ''v1'', py ''v2''}"
  let ?w1 = "download_videos demo_env demo_world good_channel (order demo_env (?R - ?L))"
  have w1: "?w1 = download_videos demo_env demo_world good_channel [py ''v3'']"
    by (simp add: demo_sets demo_order_values)
  have ps: "order demo_env (?L - ?R) = [py ''v1'']"
    by (simp add: demo_sets demo_order_values)
  have i1: "iterates (order demo_env) (?R - ?L)"
    by (simp add: demo_sets iterates_def demo_order_values)
  have i2: "iterates (order demo_env) (?L - ?R)"
    by (simp add: demo_sets iterates_def demo_order_values)
  have fetch: "get_local_videos demo_env (download demo_env (ch_name good_channel) v fs) good_channel
          = insert v (get_local_videos demo_env fs good_channel)" if "v \<in> ?R - ?L" for v fs
  proof -
    from that have "v = py ''v3''" by (simp add: demo_sets)
    then have "id_token (unicode_alnum demo_env) v" by (simp add: demo_id_tokens)
    then show ?thesis by (rule demo_fetch)
  qed
  have purge: "(f \<notin> set files') = (video_id (unicode_alnum demo_env) (d_name f) = Some v)"
    if run: "order demo_env (?L - ?R) = pre @ v # post"
      and files: "dirs (cleanup_videos demo_env ?w1 good_channel pre) (ch_name good_channel) = Some files"
      and files': "dirs (cleanup_videos demo_env ?w1 good_channel (pre @ [v])) (ch_name good_channel)
                     = Some files'"
      and f: "f \<in> set files" for pre v post files files' f
  proof -
    from run have "[py ''v1''] = pre @ v # post" by (simp only: ps)
    then have pre: "pre = []" and v1: "v = py ''v1''"
      by (simp_all add: Cons_eq_append_conv)
    from files have "dirs ?w1 (ch_name good_channel) = Some files"
      by (simp add: pre)
    from this [unfolded w1 demo_after_downloads]
    have fs: "files = [mp4 (py ''v1''), mp4 (py ''v2''), mp4 (py ''v3'')]"
      by simp
    from files' have "dirs (cleanup_videos demo_env ?w1 good_channel [py ''v1''])
        (ch_name good_channel) = Some files'"
      by (simp only: pre v1 append_Nil)
    from this [unfolded w1 demo_after_purge]
    have fs': "files' = [mp4 (py ''v2''), mp4 (py ''v3'')]"
      by simp
    from f fs have "f = mp4 (py ''v1'') \<or> f = mp4 (py ''v2'') \<or> f = mp4 (py ''v3'')" by simp
    then show ?thesis
      using py_neq by (auto simp: fs' v1 mp4_inj video_id_mp4 demo_id_tokens)
  qed
  have "\<exists>w'. sync_channel demo_env demo_world good_channel = Inr w'
        \<and> get_local_videos demo_env (dirs w') good_channel = ?R"
  proof (rule sync_channel_converges [where E = demo_env and channel = good_channel
        and R = ?R and L = ?L and w = demo_world and ?w1.0 = ?w1])
    show "get_latest_videos (feed demo_env (ch_id good_channel)) (ch_keep good_channel) = Inr ?R"
      by (rule demo_latest_videos)
    show "?L = get_local_videos demo_env (dirs demo_world) good_channel"
      by (rule demo_local_videos [symmetric])
    show "iterates (order demo_env) (?R - ?L)" by (rule i1)
    show "iterates (order demo_env) (?L - ?R)" by (rule i2)
    show "?w1 = ?w1" by (rule refl)
  next
    fix v fs
    assume "v \<in> ?R - ?L"
    then show "get_local_videos demo_env (download demo_env (ch_name good_channel) v fs) good_channel
          = insert v (get_local_videos demo_env fs good_channel)"
      by (rule fetch)
  next
    fix pre v post files files' f
    assume "order demo_env (?L - ?R) = pre @ v # post"
      "dirs (cleanup_videos demo_env ?w1 good_channel pre) (ch_name good_channel) = Some files"
      "dirs (cleanup_videos demo_env ?w1 good_channel (pre @ [v])) (ch_name good_channel) = Some files'"
      "f \<in> set files"
    then show "(f \<notin> set files') = (video_id (unicode_alnum demo_env) (d_name f) = Some v)"
      by (rule purge)
  qed
  with demo_latest_videos demo_local_videos show ?thesis by blast
qed

section \<open>The loop over the channels\<close>

lemma sync_loop_append:
  "sync_loop E w (xs @ ys) =
     (case sync_loop E w xs of
        (None, w1) \<Rightarrow> sync_loop E w1 ys
      | (Some e, w1) \<Rightarrow> (Some e, w1))"
  by (induction xs arbitrary: w) (simp_all split: sum.splits)

lemma downloads_of_sync_channel:
  assumes "get_latest_videos (feed E (ch_id channel)) (ch_keep channel) = Inr R"
  shows "\<exists>w'. sync_channel E w channel = Inr w'
     \<and> downloads_of (calls w')
         = downloads_of (calls w) @ order E (R - get_local_videos E (dirs w) channel)"
proof -
  let ?w1 = "download_videos E w channel (order E (R - get_local_videos E (dirs w) channel))"
  let ?w2 = "cleanup_videos E ?w1 channel (order E (get_local_videos E (dirs w) channel - R))"
  from calls_cleanup_videos [of E ?w1 channel "order E (get_local_videos E (dirs w) channel - R)"]
  obtain cs where cs: "calls ?w2 = calls ?w1 @ cs" and d: "downloads_of cs = []" by blast
  have "sync_channel E w channel = Inr ?w2"
    using assms by (rule sync_channel_Inr)
  moreover have "downloads_of (calls ?w2)
      = downloads_of (calls w) @ order E (R - get_local_videos E (dirs w) channel)"
    using cs d by (simp add: calls_download_videos downloads_of_append downloads_of_map_Download)
  ultimately show ?thesis by blast
qed

lemma demo_bad_lookup:
  "get_latest_videos (feed demo_env (ch_id bad_channel)) (ch_keep bad_channel)
     = Inl RemoteLookupError"
  by (simp add: get_latest_videos_def demo_env_def demo_feed_def bad_channel_def py_def)

lemma demo_bad_sync: "sync_channel demo_env demo_world bad_channel = Inl RemoteLookupError"
  by (simp add: sync_channel_Inl demo_bad_lookup)

lemma demo_good_sync:
  "\<exists>w'. sync_channel demo_env demo_world good_channel = Inr w'
     \<and> downloads_of (calls w') = [py ''v3'']"
  using downloads_of_sync_channel [OF demo_latest_videos, of demo_world]
  by (simp add: demo_local_videos demo_sets demo_order_values) (simp add: demo_world_def)

text \<open>
  Claim C6, as the code has it. The loop visits the configured channels in order, each
  starting from the state the one before it left. A pass over a channel fails exactly
  when the remote lookup raises; an unreadable directory, a failing download and a
  failing deletion do not end it. Nothing catches the exception of the lookup: it
  ends the run at that channel, with the channels before it synced and the channels
  after it untouched.
\<close>

theorem sync_stops_at_lookup_error:
  "(sync_channel E w channel = Inl e \<longleftrightarrow>
      get_latest_videos (feed E (ch_id channel)) (ch_keep channel) = Inl e)
   \<and> (sync_loop E w before = (None, w1) \<and> sync_channel E w1 channel = Inl e \<longrightarrow>
        sync E w \<lparr>cfg_channels = Some (before @ channel # after)\<rparr> = (Some e, w1)
        \<and> cli_sync E w \<lparr>cfg_channels = Some (before @ channel # after)\<rparr> = (Inl e, w1))
   \<and> (sync_loop E w before = (None, w1) \<and> sync_channel E w1 channel = Inr w2 \<longrightarrow>
        sync E w \<lparr>cfg_channels = Some (before @ channel # after)\<rparr> = sync_loop E w2 after)"
proof -
  have a: "sync_channel E w channel = Inl e \<longleftrightarrow>
      get_latest_videos (feed E (ch_id channel)) (ch_keep channel) = Inl e"
    by (rule sync_channel_Inl)
  have b: "sync E w \<lparr>cfg_channels = Some (before @ channel # after)\<rparr> = (Some e, w1)
        \<and> cli_sync E w \<lparr>cfg_channels = Some (before @ channel # after)\<rparr> = (Inl e, w1)"
    if "sync_loop E w before = (None, w1)" "sync_channel E w1 channel = Inl e"
    using that by (simp add: sync_def cli_sync_def channels_def sync_loop_append)
  have c: "sync E w \<lparr>cfg_channels = Some (before @ channel # after)\<rparr> = sync_loop E w2 after"
    if "sync_loop E w before = (None, w1)" "sync_channel E w1 channel = Inr w2"
    using that by (simp add: sync_def channels_def sync_loop_append)
  from a b c show ?thesis by blast
qed

theorem sync_stops_at_lookup_error_witness:
  "sync_loop demo_env demo_world [] = (None, demo_world)
   \<and> sync_channel demo_env demo_world bad_channel = Inl RemoteLookupError
   \<and> sync demo_env demo_world \<lparr>cfg_channels = Some ([] @ bad_channel # [good_channel])\<rparr>
       = (Some RemoteLookupError, demo_world)
   \<and> cli_sync demo_env demo_world \<lparr>cfg_channels = Some ([] @ bad_channel # [good_channel])\<rparr>
       = (Inl RemoteLookupError, demo_world)"
proof -
  have l: "sync_loop demo_env demo_world [] = (None, demo_world)" by simp
  from sync_stops_at_lookup_error [of demo_env demo_world bad_channel RemoteLookupError
      "[]" demo_world "[good_channel]"] l demo_bad_sync
  show ?thesis by blast
qed

text \<open>
  The claim as the specification words it fails: with the channel whose lookup raises
  first in the configuration, the run ends with the exception and the state it started
  from, although the second channel, synced from that state, gets a video downloaded.
\<close>

theorem sync_not_isolated_counterexample:
  "sync demo_env demo_world \<lparr>cfg_channels = Some [bad_channel, good_channel]\<rparr>
     = (Some RemoteLookupError, demo_world)
   \<and> cli_sync demo_env demo_world \<lparr>cfg_channels = Some [bad_channel, good_channel]\<rparr>
     = (Inl RemoteLookupError, demo_world)
   \<and> calls demo_world = []
   \<and> (\<exists>w'. sync_channel demo_env demo_world good_channel = Inr w'
        \<and> downloads_of (calls w') = [py ''v3''])"
proof -
  have "sync demo_env demo_world \<lparr>cfg_channels = Some [bad_channel, good_channel]\<rparr>
     = (Some RemoteLookupError, demo_world)"
    by (simp add: sync_def channels_def demo_bad_sync)
  moreover have "cli_sync demo_env demo_world \<lparr>cfg_channels = Some [bad_channel, good_channel]\<rparr>
     = (Inl RemoteLookupError, demo_world)"
    by (simp add: cli_sync_def channels_def demo_bad_sync)
  moreover have "calls demo_world = []" by (simp add: demo_world_def)
  ultimately show ?thesis using demo_good_sync by blast
qed

section \<open>Adding a channel\<close>

lemma id_already_in_iff:
  "id_already_in cs new_channel \<longleftrightarrow> (\<exists>c \<in> set cs. ch_id c = ch_id new_channel)"
  by (induction cs) simp_all

text \<open>The two cases in which \<open>add\<close> does what the specification says.\<close>

lemma cli_add_duplicate:
  "\<exists>c \<in> set (channels (arch_config a)). ch_id c = ch_id new_channel \<Longrightarrow>
   cli_add a new_channel = (1, a)"
  by (simp add: cli_add_def archiver_add_channel_def config_add_channel_def id_already_in_iff)

lemma cli_add_fresh:
  "cfg_channels (arch_config a) = Some cs \<Longrightarrow> \<forall>c \<in> set cs. ch_id c \<noteq> ch_id new_channel \<Longrightarrow>
   cli_add a new_channel =
     (0, a\<lparr>arch_config := (arch_config a)\<lparr>cfg_channels := Some (cs @ [new_channel])\<rparr>,
           arch_file := (arch_config a)\<lparr>cfg_channels := Some (cs @ [new_channel])\<rparr>\<rparr>)"
  by (simp add: cli_add_def archiver_add_channel_def config_add_channel_def id_already_in_iff
      channels_def save_def)

text \<open>
  Claim C7 fails on a configuration file without a \<open>channels\<close> entry: \<open>add\<close> reports
  success (exit code 0) and saves, and the stored channel list is as empty as before.
  The new channel was appended to the default list of \<open>get("channels", [])\<close>, which
  belongs to no configuration.
\<close>

theorem add_without_channels_entry:
  "cli_add \<lparr>arch_config = \<lparr>cfg_channels = None\<rparr>, arch_file = \<lparr>cfg_channels = None\<rparr>\<rparr>
      good_channel
     = (0, \<lparr>arch_config = \<lparr>cfg_channels = None\<rparr>, arch_file = \<lparr>cfg_channels = None\<rparr>\<rparr>)
   \<and> channels \<lparr>cfg_channels = None\<rparr> = []"
  by (simp add: cli_add_def archiver_add_channel_def config_add_channel_def channels_def save_def)

end
